theory Spec2Isabelle
  imports Main
begin

section \<open>Shared vocabulary\<close>

text \<open>
  Policy identifiers are Python strings. Exceptions raised by the modelled code are values
  of \<open>error\<close>; a function that may raise returns \<open>error + 'a\<close> with \<open>Inl\<close> the exception.
\<close>

type_synonym policy_id = string

datatype error = ValueError | KeyError | AttributeError | ZeroDivisionError | IndexError

section \<open>The policy manager (maro/rl/training/policy\_manager.py)\<close>

text \<open>
  \<open>PolicyUpdateTrigger\<close> is the named tuple of the two thresholds. Python integers are
  unbounded, hence \<open>int\<close>.
\<close>

record PolicyUpdateTrigger =
  min_new_experiences :: int
  num_warmup_experiences :: int

text \<open>
  Modelled from the spec: the class \<open>ExperienceSet\<close> is defined in another module,
  maro.rl.experience. The spec describes a batch as an ordered sequence of interaction
  records together with \<open>size\<close>, the count of records. A batch is a list of records of an
  arbitrary type \<open>'r\<close>.
\<close>

type_synonym 'r ExperienceSet = "'r list"

definition exp_size :: "'r ExperienceSet \<Rightarrow> int" where
  "exp_size exp = int (length exp)"

text \<open>
  The experience memory of a policy comes from the same module. The manager uses two
  members of it, \<open>put\<close> and \<open>size\<close>; both are parameters of the model, over an arbitrary
  type \<open>'m\<close> of memories.
\<close>

record ('m, 'r) memory_ops =
  mem_put :: "'m \<Rightarrow> 'r ExperienceSet \<Rightarrow> 'm"
  mem_size :: "'m \<Rightarrow> int"

text \<open>
  A policy object. The manager inspects policies with \<open>hasattr\<close>: an attribute that may be
  absent is an \<open>option\<close> field. \<open>update_method\<close> is the policy's own \<open>update()\<close>, which reads
  and may rewrite the memory and the trainable state of the policy it belongs to;
  \<open>policy_state\<close> is what the policy's \<open>get_state()\<close> exports.
\<close>

record ('m, 's) policy =
  experience_memory :: "'m option"
  update_method :: "('m \<Rightarrow> 's \<Rightarrow> 'm \<times> 's) option"
  policy_state :: 's

text \<open>
  Python dictionaries hold references. Policy objects live in a store indexed by addresses;
  \<open>policy_dict\<close> and \<open>_updatable_policy_dict\<close> map identifiers to addresses, in insertion
  order, so that both dictionaries see every mutation of a policy. \<open>_new_exp_counter\<close> is a
  \<open>defaultdict(int)\<close>: a total function with default 0.
\<close>

type_synonym addr = nat

record ('m, 's) LocalPolicyManager =
  heap :: "addr \<Rightarrow> ('m, 's) policy"
  names :: "policy_id list"
  policy_dict :: "(policy_id \<times> addr) list"
  updatable_policy_dict :: "(policy_id \<times> addr) list"
  update_trigger :: "(policy_id \<times> PolicyUpdateTrigger) list"
  new_exp_counter :: "policy_id \<Rightarrow> int"
  updated_policy_ids :: "policy_id set"

text \<open>The three shapes of the constructor's \<open>update_trigger\<close> argument.\<close>

datatype trigger_arg =
    TriggerNone
  | TriggerSingle PolicyUpdateTrigger
  | TriggerDict "(policy_id \<times> PolicyUpdateTrigger) list"

definition is_updatable :: "('m, 's) policy \<Rightarrow> bool" where
  "is_updatable p \<longleftrightarrow> experience_memory p \<noteq> None \<and> update_method p \<noteq> None"

definition default_trigger :: PolicyUpdateTrigger where
  "default_trigger = \<lparr>min_new_experiences = 1, num_warmup_experiences = 1\<rparr>"

text \<open>\<open>LocalPolicyManager.__init__\<close>, over the store \<open>h\<close> that holds the policy objects.\<close>

definition init ::
  "(addr \<Rightarrow> ('m, 's) policy) \<Rightarrow> (policy_id \<times> addr) list \<Rightarrow> trigger_arg
    \<Rightarrow> error + ('m, 's) LocalPolicyManager" where
  "init h pd trig =
    (if (case trig of TriggerDict d \<Rightarrow> \<not> set (map fst d) \<subseteq> set (map fst pd) | _ \<Rightarrow> False)
     then Inl ValueError
     else
       let upd = filter (\<lambda>(policy_id, a). is_updatable (h a)) pd in
       Inr \<lparr>heap = h,
            names = map fst pd,
            policy_dict = pd,
            updatable_policy_dict = upd,
            update_trigger =
              (case trig of
                 TriggerNone \<Rightarrow> map (\<lambda>(policy_id, a). (policy_id, default_trigger)) upd
               | TriggerDict d \<Rightarrow> d
               | TriggerSingle t \<Rightarrow> map (\<lambda>(policy_id, a). (policy_id, t)) upd),
            new_exp_counter = (\<lambda>policy_id. 0),
            updated_policy_ids = {}\<rparr>)"

text \<open>
  \<open>on_experiences\<close>, body of the first loop for a policy at address \<open>a\<close> that has an
  \<open>experience_memory\<close> \<open>mem\<close> (source lines 100 and 101): the counter of the identifier
  grows by the batch's size and the batch is put into the memory.
\<close>

definition store_one ::
  "('m, 'r) memory_ops \<Rightarrow> ('m, 's) LocalPolicyManager \<Rightarrow> policy_id \<Rightarrow> addr \<Rightarrow> 'm
    \<Rightarrow> 'r ExperienceSet \<Rightarrow> ('m, 's) LocalPolicyManager" where
  "store_one ops mgr policy_id a mem exp =
     mgr\<lparr>new_exp_counter :=
            (new_exp_counter mgr)(policy_id := new_exp_counter mgr policy_id + exp_size exp),
          heap := (heap mgr)(a := (heap mgr a)\<lparr>experience_memory := Some (mem_put ops mem exp)\<rparr>)\<rparr>"

text \<open>
  The first loop (source lines 97 to 101): every entry of \<open>exp_by_policy\<close> is looked up in
  \<open>policy_dict\<close>, which raises \<open>KeyError\<close> for an unknown identifier; a policy without an
  \<open>experience_memory\<close> is skipped.
\<close>

fun store_experiences ::
  "('m, 'r) memory_ops \<Rightarrow> ('m, 's) LocalPolicyManager \<Rightarrow> (policy_id \<times> 'r ExperienceSet) list
    \<Rightarrow> error + ('m, 's) LocalPolicyManager" where
  "store_experiences ops mgr [] = Inr mgr"
| "store_experiences ops mgr ((policy_id, exp) # rest) =
    (case map_of (policy_dict mgr) policy_id of
       None \<Rightarrow> Inl KeyError
     | Some a \<Rightarrow>
        (case experience_memory (heap mgr a) of
           None \<Rightarrow> store_experiences ops mgr rest
         | Some mem \<Rightarrow> store_experiences ops (store_one ops mgr policy_id a mem exp) rest))"

text \<open>
  The update condition of source lines 106 to 108, for a policy whose memory is \<open>mem\<close>:
  \<open>A or B and C\<close> is \<open>A or (B and C)\<close> in Python.
\<close>

definition should_update ::
  "('m, 'r) memory_ops \<Rightarrow> ('m, 's) LocalPolicyManager \<Rightarrow> policy_id \<Rightarrow> 'm \<Rightarrow> bool" where
  "should_update ops mgr policy_id mem \<longleftrightarrow>
    (case map_of (update_trigger mgr) policy_id of
       None \<Rightarrow> True
     | Some t \<Rightarrow> mem_size ops mem \<ge> num_warmup_experiences t
                \<and> new_exp_counter mgr policy_id \<ge> min_new_experiences t)"

text \<open>
  Source lines 110 to 112 for a policy at address \<open>a\<close> with memory \<open>mem\<close> and update
  routine \<open>upd\<close>: the routine runs on the policy, the counter of the identifier is reset and
  the identifier joins the updated set.
\<close>

definition update_one ::
  "('m, 's) LocalPolicyManager \<Rightarrow> policy_id \<Rightarrow> addr \<Rightarrow> 'm \<Rightarrow> ('m \<Rightarrow> 's \<Rightarrow> 'm \<times> 's)
    \<Rightarrow> ('m, 's) LocalPolicyManager" where
  "update_one mgr policy_id a mem upd =
     mgr\<lparr>heap := (heap mgr)(a := (heap mgr a)\<lparr>experience_memory := Some (fst (upd mem (policy_state (heap mgr a)))),
                                               policy_state := snd (upd mem (policy_state (heap mgr a)))\<rparr>),
          new_exp_counter := (new_exp_counter mgr)(policy_id := 0),
          updated_policy_ids := insert policy_id (updated_policy_ids mgr)\<rparr>"

text \<open>
  \<open>on_experiences\<close>, second loop (source lines 103 to 112), over the items of
  \<open>_updatable_policy_dict\<close>. Reading \<open>policy.experience_memory\<close> or calling \<open>policy.update\<close>
  on an object without that attribute raises \<open>AttributeError\<close>. Beside the new state the
  function returns the identifiers whose \<open>update()\<close> was called, in the order of the calls:
  the trace of the loop's effect on the policies.
\<close>

fun update_policies ::
  "('m, 'r) memory_ops \<Rightarrow> ('m, 's) LocalPolicyManager \<Rightarrow> (policy_id \<times> addr) list
    \<Rightarrow> error + (policy_id list \<times> ('m, 's) LocalPolicyManager)" where
  "update_policies ops mgr [] = Inr ([], mgr)"
| "update_policies ops mgr ((policy_id, a) # rest) =
    (case experience_memory (heap mgr a) of
       None \<Rightarrow> Inl AttributeError
     | Some mem \<Rightarrow>
        if should_update ops mgr policy_id mem then
          (case update_method (heap mgr a) of
             None \<Rightarrow> Inl AttributeError
           | Some upd \<Rightarrow>
              (case update_policies ops (update_one mgr policy_id a mem upd) rest of
                 Inl e \<Rightarrow> Inl e
               | Inr (called, mgr') \<Rightarrow> Inr (policy_id # called, mgr')))
        else update_policies ops mgr rest)"

definition on_experiences ::
  "('m, 'r) memory_ops \<Rightarrow> ('m, 's) LocalPolicyManager \<Rightarrow> (policy_id \<times> 'r ExperienceSet) list
    \<Rightarrow> error + (policy_id list \<times> ('m, 's) LocalPolicyManager)" where
  "on_experiences ops mgr exp_by_policy =
    (case store_experiences ops mgr exp_by_policy of
       Inl e \<Rightarrow> Inl e
     | Inr mgr1 \<Rightarrow> update_policies ops mgr1 (updatable_policy_dict mgr1))"

text \<open>
  \<open>get_state\<close> (source lines 117 to 123): the dictionary comprehension looks every updated
  identifier up in \<open>policy_dict\<close> (\<open>KeyError\<close> when one is missing, before the set is cleared);
  the result is the dictionary and the manager with the set cleared.
\<close>

definition get_state ::
  "('m, 's) LocalPolicyManager \<Rightarrow> error + ((policy_id \<rightharpoonup> 's) \<times> ('m, 's) LocalPolicyManager)" where
  "get_state mgr =
    (if \<exists>policy_id \<in> updated_policy_ids mgr. map_of (policy_dict mgr) policy_id = None
     then Inl KeyError
     else Inr ((\<lambda>policy_id.
                  if policy_id \<in> updated_policy_ids mgr
                  then map_option (\<lambda>a. policy_state (heap mgr a)) (map_of (policy_dict mgr) policy_id)
                  else None),
               mgr\<lparr>updated_policy_ids := {}\<rparr>))"

text \<open>
  A concrete instance for evaluation: the memory is the list of the records it holds,
  \<open>put\<close> appends a batch and \<open>size\<close> counts the records.
\<close>

definition list_memory :: "('r list, 'r) memory_ops" where
  "list_memory = \<lparr>mem_put = (\<lambda>mem exp. mem @ exp), mem_size = (\<lambda>mem. int (length mem))\<rparr>"

text \<open>
  Three sample policies over that memory, with a natural number as trainable state:
  \<open>learner\<close> has a memory and an \<open>update\<close> that counts its calls and keeps the memory,
  \<open>recorder\<close> has a memory and no \<open>update\<close>, \<open>fixed_rule\<close> has neither.
\<close>

definition count_calls :: "nat list \<Rightarrow> nat \<Rightarrow> nat list \<times> nat" where
  "count_calls mem st = (mem, Suc st)"

definition learner :: "(nat list, nat) policy" where
  "learner = \<lparr>experience_memory = Some [], update_method = Some count_calls, policy_state = 0\<rparr>"

definition recorder :: "(nat list, nat) policy" where
  "recorder = \<lparr>experience_memory = Some [], update_method = None, policy_state = 0\<rparr>"

definition fixed_rule :: "(nat list, nat) policy" where
  "fixed_rule = \<lparr>experience_memory = None, update_method = None, policy_state = 0\<rparr>"

definition sample_heap :: "addr \<Rightarrow> (nat list, nat) policy" where
  "sample_heap a = (if a = 0 then learner else if a = 1 then recorder else fixed_rule)"

definition sample_policy_dict :: "(policy_id \<times> addr) list" where
  "sample_policy_dict = [(''p'', 0), (''q'', 1), (''r'', 2)]"

text \<open>
  A manager for the sample policies as the constructor builds it from a trigger dictionary:
  only \<open>learner\<close>, registered as \<open>p\<close>, is updatable.
\<close>

definition sample_manager ::
  "(policy_id \<times> PolicyUpdateTrigger) list \<Rightarrow> (nat list, nat) LocalPolicyManager" where
  "sample_manager trig =
     \<lparr>heap = sample_heap,
      names = [''p'', ''q'', ''r''],
      policy_dict = sample_policy_dict,
      updatable_policy_dict = [(''p'', 0)],
      update_trigger = trig,
      new_exp_counter = (\<lambda>policy_id. 0),
      updated_policy_ids = {}\<rparr>"







subsection \<open>Notions used to state the properties of the manager\<close>

text \<open>
  What the constructor establishes and every operation keeps: the keys of \<open>policy_dict\<close> are
  distinct (it is a dictionary), \<open>_updatable_policy_dict\<close> is its restriction to the policies
  with both attributes, and every updated identifier is a key of \<open>policy_dict\<close>.
\<close>

definition manager_inv :: "('m, 's) LocalPolicyManager \<Rightarrow> bool" where
  "manager_inv mgr \<longleftrightarrow>
     distinct (map fst (policy_dict mgr))
     \<and> updatable_policy_dict mgr = filter (\<lambda>(policy_id, a). is_updatable (heap mgr a)) (policy_dict mgr)
     \<and> updated_policy_ids mgr \<subseteq> set (map fst (policy_dict mgr))"





text \<open>The identifiers whose \<open>update()\<close> a call made, when the call returned.\<close>

definition updates_of ::
  "error + (policy_id list \<times> ('m, 's) LocalPolicyManager) \<Rightarrow> error + policy_id list" where
  "updates_of res = (case res of Inl e \<Rightarrow> Inl e | Inr (called, mgr) \<Rightarrow> Inr called)"

section \<open>The actor (maro/rl/learning/asynchronous/actor.py)\<close>

subsection \<open>The evaluation schedule\<close>

text \<open>The three shapes of the argument \<open>eval_schedule\<close>: \<open>None\<close>, an integer, a list.\<close>

datatype eval_schedule_arg =
    ScheduleNone
  | ScheduleInt int
  | ScheduleList "int list"

text \<open>
  Source lines 66 to 76. \<open>num_episodes // eval_schedule\<close> raises \<open>ZeroDivisionError\<close> for a
  zero period and floors otherwise, as \<open>div\<close> does on \<open>int\<close>; \<open>range(1, n + 1)\<close> is \<open>[1..n]\<close>;
  \<open>sort\<close> orders the list ascending and keeps duplicates. Then \<open>num_episodes\<close> is appended
  unless it is already the last element.
\<close>

definition compute_eval_schedule :: "int \<Rightarrow> eval_schedule_arg \<Rightarrow> error + int list" where
  "compute_eval_schedule num_episodes eval_schedule =
    (case (case eval_schedule of
             ScheduleNone \<Rightarrow> Inr []
           | ScheduleInt k \<Rightarrow>
               if k = 0 then Inl ZeroDivisionError
               else Inr (map (\<lambda>i. k * i) [1..num_episodes div k])
           | ScheduleList xs \<Rightarrow> Inr (sort xs)) of
       Inl e \<Rightarrow> Inl e
     | Inr sched \<Rightarrow>
         Inr (if sched = [] \<or> num_episodes \<noteq> last sched then sched @ [num_episodes] else sched))"

subsection \<open>Collaborators, messages and runs\<close>

text \<open>
  The environment wrappers, the agent wrapper and the proxy are collaborators defined in
  other modules. Their joint state is a value of an arbitrary type \<open>'w\<close>, and each call the
  actor makes on them is a parameter that acts on it. An environment wrapper offers the
  truth value of its \<open>state\<close>, \<open>reset()\<close>, \<open>start()\<close>, and \<open>env_step\<close>, which stands for
  \<open>step(agent_wrapper.choose_action(state))\<close>.
\<close>

record 'w AbsEnvWrapper =
  env_state :: "'w \<Rightarrow> bool"
  env_reset :: "'w \<Rightarrow> 'w"
  env_start :: "'w \<Rightarrow> 'w"
  env_step :: "'w \<Rightarrow> 'w"

text \<open>
  The three messages the actor builds, by tag. \<open>COLLECT_DONE\<close> carries the experiences by
  policy, of an arbitrary type \<open>'x\<close>, and the local variable \<open>policy_version\<close>, which is
  \<open>None\<close> until a reply has set it. A reply body has a version and policy states.
\<close>

datatype ('x, 'v) message =
    GET_INITIAL_POLICY_STATE
  | COLLECT_DONE 'x "'v option"
  | DONE

record ('v, 'p) reply_body =
  reply_version :: 'v
  reply_policy_state :: 'p

text \<open>
  \<open>proxy_send\<close> is \<open>proxy.send(msg)[0]\<close>: it blocks until the reply is there and returns it.
  \<open>proxy_isend\<close> is \<open>proxy.isend(msg)\<close>, which returns no reply. \<open>new_proxy\<close> is the
  construction of the proxy. \<open>get_experiences_by_policy\<close> is source lines 110 to 113, from
  \<open>env_wrapper.get_experiences()\<close> to \<open>agent_wrapper.get_experiences_by_policy(...)\<close>.
\<close>

record ('w, 'x, 'v, 'p) collaborators =
  env_wrapper :: "'w AbsEnvWrapper"
  eval_env_wrapper :: "'w AbsEnvWrapper option"
  explore :: "'w \<Rightarrow> 'w"
  exploit :: "'w \<Rightarrow> 'w"
  exploration_step :: "'w \<Rightarrow> 'w"
  get_experiences_by_policy :: "'w \<Rightarrow> 'x \<times> 'w"
  set_policy_states :: "'p \<Rightarrow> 'w \<Rightarrow> 'w"
  new_proxy :: "'w \<Rightarrow> 'w"
  proxy_send :: "('x, 'v) message \<Rightarrow> 'w \<Rightarrow> ('v, 'p) reply_body \<times> 'w"
  proxy_isend :: "('x, 'v) message \<Rightarrow> 'w \<Rightarrow> 'w"
  proxy_close :: "'w \<Rightarrow> 'w"

text \<open>
  What the actor does to its collaborators, in order. A round trip is recorded with the
  message sent and the reply received, a one-way notification with its message alone.
\<close>

datatype ('x, 'v, 'p) event =
    OpenProxy
  | RoundTrip "('x, 'v) message" "('v, 'p) reply_body"
  | SetPolicyStates 'p
  | Notification "('x, 'v) message"
  | CloseProxy
  | Explore
  | EnvReset
  | EnvStart
  | EnvStep
  | GetExperiences
  | ExplorationStep
  | Exploit
  | EvalEnvReset
  | EvalEnvStart
  | EvalEnvStep

text \<open>
  A piece of the actor either completes, raises, or contains a \<open>while\<close> loop that is still
  running after \<open>fuel\<close> iterations. In each case it has produced a log, the events in order,
  each with the state of the collaborators it left, and it ends in a local state: the
  variable \<open>policy_version\<close> and the state of the collaborators.
\<close>

datatype outcome = Completed | OutOfFuel | Raised error

type_synonym ('x, 'v, 'p, 'w) run =
  "outcome \<times> (('x, 'v, 'p) event \<times> 'w) list \<times> ('v option \<times> 'w)"

text \<open>A call on the collaborators that returns nothing to the actor.\<close>

definition emit ::
  "('x, 'v, 'p) event \<Rightarrow> ('w \<Rightarrow> 'w) \<Rightarrow> 'v option \<times> 'w \<Rightarrow> ('x, 'v, 'p, 'w) run" where
  "emit e f s = (Completed, [(e, f (snd s))], (fst s, f (snd s)))"

text \<open>Sequential composition: what follows runs only when what precedes completed.\<close>

definition then_run ::
  "outcome \<times> 'l list \<times> 's \<Rightarrow> ('s \<Rightarrow> outcome \<times> 'l list \<times> 's) \<Rightarrow> outcome \<times> 'l list \<times> 's" where
  "then_run r f =
    (case r of (out, tr, s) \<Rightarrow>
       if out = Completed then (case f s of (out', tr', s') \<Rightarrow> (out', tr @ tr', s'))
       else (out, tr, s))"

fun run_all ::
  "('s \<Rightarrow> outcome \<times> 'l list \<times> 's) list \<Rightarrow> 's \<Rightarrow> outcome \<times> 'l list \<times> 's" where
  "run_all [] s = (Completed, [], s)"
| "run_all (f # fs) s = then_run (f s) (run_all fs)"

text \<open>
  A round trip, source lines 82 to 84 and 114 to 121: the message is sent, the reply
  awaited, its version stored in \<open>policy_version\<close> and its policy states handed to the agent
  wrapper.
\<close>

definition round_trip ::
  "('w, 'x, 'v, 'p) collaborators \<Rightarrow> ('x, 'v) message \<Rightarrow> 'v option \<times> 'w
    \<Rightarrow> ('x, 'v, 'p, 'w) run" where
  "round_trip c msg s =
    (case proxy_send c msg (snd s) of
       (reply, w) \<Rightarrow>
         (Completed,
          [(RoundTrip msg reply, w),
           (SetPolicyStates (reply_policy_state reply),
            set_policy_states c (reply_policy_state reply) w)],
          (Some (reply_version reply), set_policy_states c (reply_policy_state reply) w)))"

text \<open>
  The end of a segment, source lines 110 to 121: the experiences are taken and sent in a
  \<open>COLLECT_DONE\<close> message together with the current \<open>policy_version\<close>.
\<close>

definition collect_done ::
  "('w, 'x, 'v, 'p) collaborators \<Rightarrow> 'v option \<times> 'w \<Rightarrow> ('x, 'v, 'p, 'w) run" where
  "collect_done c s =
    (case get_experiences_by_policy c (snd s) of
       (exp_by_policy, w) \<Rightarrow>
         then_run (Completed, [(GetExperiences, w)], (fst s, w))
           (round_trip c (COLLECT_DONE exp_by_policy (fst s))))"

subsection \<open>The loops\<close>

text \<open>
  Source lines 101 to 103: \<open>while env_wrapper.state and steps_to_go\<close>. An integer is true
  unless it is zero, so a negative \<open>steps_to_go\<close> never stops the loop.
\<close>

fun rollout ::
  "nat \<Rightarrow> 'w AbsEnvWrapper \<Rightarrow> int \<Rightarrow> 'v option \<times> 'w \<Rightarrow> ('x, 'v, 'p, 'w) run" where
  "rollout 0 env steps_to_go s =
     (if env_state env (snd s) \<and> steps_to_go \<noteq> 0 then OutOfFuel else Completed, [], s)"
| "rollout (Suc n) env steps_to_go s =
     (if env_state env (snd s) \<and> steps_to_go \<noteq> 0
      then then_run (emit EnvStep (env_step env) s) (rollout n env (steps_to_go - 1))
      else (Completed, [], s))"

text \<open>
  Source lines 94 to 121: \<open>while env_wrapper.state\<close>, one segment per iteration. The loop
  counter \<open>n\<close> bounds this loop, \<open>fuel\<close> the loop inside.
\<close>

fun collect ::
  "nat \<Rightarrow> nat \<Rightarrow> ('w, 'x, 'v, 'p) collaborators \<Rightarrow> int \<Rightarrow> 'v option \<times> 'w
    \<Rightarrow> ('x, 'v, 'p, 'w) run" where
  "collect fuel 0 c num_steps s =
     (if env_state (env_wrapper c) (snd s) then OutOfFuel else Completed, [], s)"
| "collect fuel (Suc n) c num_steps s =
     (if env_state (env_wrapper c) (snd s)
      then run_all [rollout fuel (env_wrapper c) num_steps,
                    collect_done c,
                    collect fuel n c num_steps] s
      else (Completed, [], s))"

text \<open>Source lines 143 to 145: \<open>while eval_env_wrapper.state\<close>.\<close>

fun eval_loop :: "nat \<Rightarrow> 'w AbsEnvWrapper \<Rightarrow> 'v option \<times> 'w \<Rightarrow> ('x, 'v, 'p, 'w) run" where
  "eval_loop 0 env s = (if env_state env (snd s) then OutOfFuel else Completed, [], s)"
| "eval_loop (Suc n) env s =
     (if env_state env (snd s)
      then then_run (emit EvalEnvStep (env_step env) s) (eval_loop n env)
      else (Completed, [], s))"

text \<open>
  Source line 58 and lines 138 to 148: the evaluation runs on the evaluation environment
  when one was given and on the training environment otherwise.
\<close>

definition evaluate ::
  "nat \<Rightarrow> ('w, 'x, 'v, 'p) collaborators \<Rightarrow> 'v option \<times> 'w \<Rightarrow> ('x, 'v, 'p, 'w) run" where
  "evaluate fuel c =
    (let env = (case eval_env_wrapper c of None \<Rightarrow> env_wrapper c | Some e \<Rightarrow> e)
     in run_all [emit Exploit (exploit c),
                 emit EvalEnvReset (env_reset env),
                 emit EvalEnvStart (env_start env),
                 eval_loop fuel env])"

text \<open>
  One training episode up to the exploration step, source lines 88 to 124: the policies
  explore, the environment is reset and started, the segments run, the exploration
  parameters advance.
\<close>

definition episode_body ::
  "nat \<Rightarrow> ('w, 'x, 'v, 'p) collaborators \<Rightarrow> int \<Rightarrow> 'v option \<times> 'w \<Rightarrow> ('x, 'v, 'p, 'w) run" where
  "episode_body fuel c num_steps =
     run_all [emit Explore (explore c),
              emit EnvReset (env_reset (env_wrapper c)),
              emit EnvStart (env_start (env_wrapper c)),
              collect fuel fuel c num_steps,
              emit ExplorationStep (exploration_step c)]"

text \<open>
  The main loop, source lines 87 to 148, over the episodes that remain, with the current
  \<open>eval_point_index\<close>. Reading \<open>eval_schedule[eval_point_index]\<close> past the end of the list
  raises \<open>IndexError\<close>.
\<close>

fun episodes ::
  "nat \<Rightarrow> ('w, 'x, 'v, 'p) collaborators \<Rightarrow> int \<Rightarrow> int list \<Rightarrow> int list \<Rightarrow> nat
    \<Rightarrow> 'v option \<times> 'w \<Rightarrow> ('x, 'v, 'p, 'w) run" where
  "episodes fuel c num_steps eval_schedule [] eval_point_index s = (Completed, [], s)"
| "episodes fuel c num_steps eval_schedule (ep # eps) eval_point_index s =
     then_run (episode_body fuel c num_steps s)
       (\<lambda>s'. if eval_point_index \<ge> length eval_schedule then (Raised IndexError, [], s')
             else if ep = eval_schedule ! eval_point_index
             then then_run (evaluate fuel c s')
                    (episodes fuel c num_steps eval_schedule eps (eval_point_index + 1))
             else episodes fuel c num_steps eval_schedule eps eval_point_index s')"

text \<open>
  The function \<open>actor\<close>, started in the state \<open>w\<close> of the collaborators. The step budget is
  checked first (source lines 55 and 56), the proxy is created, \<open>policy_version\<close> is \<open>None\<close>,
  the schedule is computed, the initial policy states are fetched in a round trip, the
  episodes run, and the \<open>DONE\<close> message is handed to \<open>isend\<close> before the proxy is closed. The
  result is the outcome, the log and the state the collaborators are left in.
\<close>

definition actor ::
  "nat \<Rightarrow> ('w, 'x, 'v, 'p) collaborators \<Rightarrow> int \<Rightarrow> int \<Rightarrow> eval_schedule_arg \<Rightarrow> 'w
    \<Rightarrow> outcome \<times> (('x, 'v, 'p) event \<times> 'w) list \<times> 'w" where
  "actor fuel c num_episodes num_steps eval_schedule w =
    (if num_steps = 0 \<or> num_steps < -1 then (Raised ValueError, [], w)
     else
       (case compute_eval_schedule num_episodes eval_schedule of
          Inl e \<Rightarrow> (Raised e, [(OpenProxy, new_proxy c w)], new_proxy c w)
        | Inr sched \<Rightarrow>
            (case run_all [emit OpenProxy (new_proxy c),
                           round_trip c GET_INITIAL_POLICY_STATE,
                           episodes fuel c num_steps sched [1..num_episodes] 0,
                           emit (Notification DONE) (proxy_isend c DONE),
                           emit CloseProxy (proxy_close c)] (None, w) of
               (out, tr, s) \<Rightarrow> (out, tr, snd s))))"

subsection \<open>Notions used to state the properties of the actor\<close>

text \<open>
  The events of a run, runs in which no event of a given set occurs, and the two kinds of
  event the claims single out.
\<close>

definition events :: "outcome \<times> ('e \<times> 'w) list \<times> 's \<Rightarrow> 'e list" where
  "events r = map fst (fst (snd r))"

definition avoids :: "'e set \<Rightarrow> outcome \<times> ('e \<times> 'w) list \<times> 's \<Rightarrow> bool" where
  "avoids E r \<longleftrightarrow> set (events r) \<inter> E = {}"

fun is_initial_round_trip :: "('x, 'v, 'p) event \<Rightarrow> bool" where
  "is_initial_round_trip (RoundTrip GET_INITIAL_POLICY_STATE reply) = True"
| "is_initial_round_trip e = False"

fun is_notification :: "('x, 'v, 'p) event \<Rightarrow> bool" where
  "is_notification (Notification msg) = True"
| "is_notification e = False"

text \<open>
  The versions that the \<open>COLLECT_DONE\<close> messages of a sequence of events carry, in order.
\<close>

fun sent_versions :: "('x, 'v, 'p) event list \<Rightarrow> 'v option list" where
  "sent_versions [] = []"
| "sent_versions (RoundTrip (COLLECT_DONE exp_by_policy v) reply # es) = v # sent_versions es"
| "sent_versions (e # es) = sent_versions es"

text \<open>The ends of the training episodes and the starts of the evaluations, in order.\<close>

definition milestones :: "outcome \<times> (('x, 'v, 'p) event \<times> 'w) list \<times> 's \<Rightarrow> ('x, 'v, 'p) event list" where
  "milestones r = filter (\<lambda>e. e = ExplorationStep \<or> e = Exploit) (events r)"

text \<open>
  A run that starts in the state \<open>w\<close> of the collaborators tracks them: it ends in the state
  that its last event left, or in \<open>w\<close> when nothing happened. A run that starts with the
  version \<open>v\<close> carries it: the first \<open>COLLECT_DONE\<close> message it sends has \<open>v\<close>, and without
  such a message it ends with \<open>v\<close>.
\<close>

definition tracks :: "'w \<Rightarrow> outcome \<times> ('e \<times> 'w) list \<times> ('v \<times> 'w) \<Rightarrow> bool" where
  "tracks w r \<longleftrightarrow> snd (snd (snd r)) = last (w # map snd (fst (snd r)))"

definition carries :: "'v option \<Rightarrow> ('x, 'v, 'p, 'w) run \<Rightarrow> bool" where
  "carries v r \<longleftrightarrow>
     (case sent_versions (events r) of [] \<Rightarrow> fst (snd (snd r)) = v | v' # vs \<Rightarrow> v' = v)"

text \<open>
  The schedule arguments for which the computed schedule is strictly ascending: no
  argument, a positive period, or a list without duplicates whose entries do not exceed
  the number of episodes.
\<close>

definition schedule_arg_ok :: "int \<Rightarrow> eval_schedule_arg \<Rightarrow> bool" where
  "schedule_arg_ok num_episodes eval_schedule =
    (case eval_schedule of
       ScheduleNone \<Rightarrow> True
     | ScheduleInt k \<Rightarrow> 0 < k
     | ScheduleList xs \<Rightarrow> distinct xs \<and> list_all (\<lambda>x. x \<le> num_episodes) xs)"

text \<open>
  Environments whose episodes end: a measure on the collaborators' state that every step
  of the environment decreases and that is at most \<open>b\<close> after \<open>reset\<close> and \<open>start\<close>. The
  collaborators are \<open>terminating\<close> when the training environment has such a measure that
  taking the experiences and the round trips do not increase, and the environment used for
  evaluation has one.
\<close>

definition step_bounded :: "('w \<Rightarrow> nat) \<Rightarrow> nat \<Rightarrow> 'w AbsEnvWrapper \<Rightarrow> bool" where
  "step_bounded m b env \<longleftrightarrow>
     (\<forall>w. env_state env w \<longrightarrow> m (env_step env w) < m w)
     \<and> (\<forall>w. m (env_start env (env_reset env w)) \<le> b)"

definition terminating :: "nat \<Rightarrow> ('w, 'x, 'v, 'p) collaborators \<Rightarrow> bool" where
  "terminating b c \<longleftrightarrow>
     (\<exists>m. step_bounded m b (env_wrapper c)
          \<and> (\<forall>w. m (snd (get_experiences_by_policy c w)) \<le> m w)
          \<and> (\<forall>msg w. m (snd (proxy_send c msg w)) \<le> m w)
          \<and> (\<forall>p w. m (set_policy_states c p w) \<le> m w))
     \<and> (\<exists>m. step_bounded m b (case eval_env_wrapper c of None \<Rightarrow> env_wrapper c | Some e \<Rightarrow> e))"

text \<open>
  Sample collaborators for evaluation. Their state holds the number of steps the
  environment has left, the policy states the agent wrapper last adopted, and the messages
  handed to the proxy. \<open>reset\<close> gives the environment 2 steps. The reply to the \<open>n\<close>-th
  message has version \<open>n\<close> and policy states \<open>n + 10\<close>, counting from 0.
\<close>

record sample_world =
  steps_left :: nat
  adopted :: nat
  outbox :: "(unit, nat) message list"

definition countdown_env :: "sample_world AbsEnvWrapper" where
  "countdown_env =
     \<lparr>env_state = (\<lambda>w. 0 < steps_left w),
      env_reset = (\<lambda>w. w\<lparr>steps_left := 2\<rparr>),
      env_start = (\<lambda>w. w),
      env_step = (\<lambda>w. w\<lparr>steps_left := steps_left w - 1\<rparr>)\<rparr>"

definition sample_collaborators :: "(sample_world, unit, nat, nat) collaborators" where
  "sample_collaborators =
     \<lparr>env_wrapper = countdown_env,
      eval_env_wrapper = None,
      explore = (\<lambda>w. w),
      exploit = (\<lambda>w. w),
      exploration_step = (\<lambda>w. w),
      get_experiences_by_policy = (\<lambda>w. ((), w)),
      set_policy_states = (\<lambda>p w. w\<lparr>adopted := p\<rparr>),
      new_proxy = (\<lambda>w. w),
      proxy_send = (\<lambda>msg w. (\<lparr>reply_version = length (outbox w),
                               reply_policy_state = length (outbox w) + 10\<rparr>,
                             w\<lparr>outbox := outbox w @ [msg]\<rparr>)),
      proxy_isend = (\<lambda>msg w. w\<lparr>outbox := outbox w @ [msg]\<rparr>),
      proxy_close = (\<lambda>w. w)\<rparr>"

definition idle_world :: sample_world where
  "idle_world = \<lparr>steps_left = 0, adopted = 0, outbox = []\<rparr>"

section \<open>Properties of the policy manager\<close>

subsection \<open>The first loop of \<open>on_experiences\<close>\<close>

lemma store_one_fields [simp]:
  "policy_dict (store_one ops mgr p a mem exp) = policy_dict mgr"
  "updatable_policy_dict (store_one ops mgr p a mem exp) = updatable_policy_dict mgr"
  "update_trigger (store_one ops mgr p a mem exp) = update_trigger mgr"
  "updated_policy_ids (store_one ops mgr p a mem exp) = updated_policy_ids mgr"
  "names (store_one ops mgr p a mem exp) = names mgr"
  "new_exp_counter (store_one ops mgr p a mem exp) q =
     (if q = p then new_exp_counter mgr p + exp_size exp else new_exp_counter mgr q)"
  "heap (store_one ops mgr p a mem exp) b =
     (if b = a then (heap mgr a)\<lparr>experience_memory := Some (mem_put ops mem exp)\<rparr> else heap mgr b)"
  by (simp_all add: store_one_def)



lemma store_experiences_KeyError:
  "\<not> set (map fst exps) \<subseteq> set (map fst (policy_dict mgr)) \<Longrightarrow>
     store_experiences ops mgr exps = Inl KeyError"
proof (induction exps arbitrary: mgr)
  case Nil
  then show ?case by simp
next
  case (Cons x exps)
  obtain policy_id exp where x: "x = (policy_id, exp)" by (cases x)
  show ?case
  proof (cases "map_of (policy_dict mgr) policy_id")
    case None
    then show ?thesis by (simp add: x)
  next
    case (Some b)
    note b = this
    then have "policy_id \<in> fst ` set (policy_dict mgr)"
      by (force dest: map_of_SomeD)
    with Cons.prems have rest: "\<not> set (map fst exps) \<subseteq> set (map fst (policy_dict mgr))"
      by (auto simp: x)
    show ?thesis
    proof (cases "experience_memory (heap mgr b)")
      case None
      with b Cons.IH[OF rest] show ?thesis by (simp add: x)
    next
      case (Some mem)
      have "store_experiences ops (store_one ops mgr policy_id b mem exp) exps = Inl KeyError"
        by (rule Cons.IH) (use rest in simp)
      with b Some show ?thesis
        by (simp add: x)
    qed
  qed
qed




subsection \<open>The second loop of \<open>on_experiences\<close>\<close>

lemma update_one_fields [simp]:
  "policy_dict (update_one mgr p a mem upd) = policy_dict mgr"
  "updatable_policy_dict (update_one mgr p a mem upd) = updatable_policy_dict mgr"
  "update_trigger (update_one mgr p a mem upd) = update_trigger mgr"
  "names (update_one mgr p a mem upd) = names mgr"
  "updated_policy_ids (update_one mgr p a mem upd) = insert p (updated_policy_ids mgr)"
  "new_exp_counter (update_one mgr p a mem upd) q = (if q = p then 0 else new_exp_counter mgr q)"
  "heap (update_one mgr p a mem upd) b =
     (if b = a
      then (heap mgr a)\<lparr>experience_memory := Some (fst (upd mem (policy_state (heap mgr a)))),
                        policy_state := snd (upd mem (policy_state (heap mgr a)))\<rparr>
      else heap mgr b)"
  by (simp_all add: update_one_def)









lemma update_one_attrs:
  "(experience_memory (heap (update_one mgr p a mem upd) b) = None) = (experience_memory (heap mgr b) = None \<and> b \<noteq> a)"
  "b \<noteq> a \<Longrightarrow> update_method (heap (update_one mgr p a mem upd) b) = update_method (heap mgr b)"
  "update_method (heap (update_one mgr p a mem upd) a) = update_method (heap mgr a)"
  by simp_all









lemma init_inv:
  "distinct (map fst pd) \<Longrightarrow> init h pd trig = Inr mgr \<Longrightarrow> manager_inv mgr"
  by (auto simp: init_def manager_inv_def Let_def split: if_splits)





subsection \<open>Whole calls and the sample managers\<close>












section \<open>Properties of the actor\<close>

subsection \<open>The evaluation schedule\<close>

lemma sorted_le_last:
  fixes xs :: "int list"
  shows "sorted xs \<Longrightarrow> x \<in> set xs \<Longrightarrow> x \<le> last xs"
  by (induction xs) auto

lemma strictly_ascending_snoc:
  fixes xs :: "int list"
  assumes "sorted_wrt (<) xs" and "\<forall>x \<in> set xs. x \<le> n" and "xs = [] \<or> n \<noteq> last xs"
  shows "sorted_wrt (<) (xs @ [n])"
proof (cases "xs = []")
  case True
  then show ?thesis by simp
next
  case False
  with assms(3) have ne: "n \<noteq> last xs" by simp
  from False have "last xs \<in> set xs" by simp
  with assms(2) ne have lt: "last xs < n" by force
  have "x < n" if "x \<in> set xs" for x
  proof -
    from assms(1) have "sorted xs" by (simp add: strict_sorted_iff)
    then have "x \<le> last xs" using that by (rule sorted_le_last)
    with lt show ?thesis by simp
  qed
  with assms(1) show ?thesis by (simp add: sorted_wrt_append)
qed

lemma periodic_ascending:
  fixes k :: int
  assumes "0 < k"
  shows "sorted_wrt (<) (map (\<lambda>i. k * i) [1..m])"
proof -
  have "sorted_wrt (<) [1..m]" by (simp add: strict_sorted_iff)
  then have "sorted_wrt (\<lambda>i j. k * i < k * j) [1..m]"
    by (rule sorted_wrt_mono_rel[rotated]) (use assms in simp)
  then show ?thesis by (simp add: sorted_wrt_map)
qed

lemma periodic_bounded:
  fixes k :: int
  assumes "0 < k"
  shows "\<forall>x \<in> set (map (\<lambda>i. k * i) [1..n div k]). x \<le> n"
proof
  fix x assume "x \<in> set (map (\<lambda>i. k * i) [1..n div k])"
  then obtain i where i: "i \<le> n div k" and x: "x = k * i" by auto
  from i assms have "k * i \<le> k * (n div k)" by simp
  moreover have "n = k * (n div k) + n mod k" by simp
  moreover have "0 \<le> n mod k" using assms by simp
  ultimately show "x \<le> n" unfolding x by linarith
qed

lemma compute_eval_schedule_last:
  "compute_eval_schedule num_episodes eval_schedule = Inr sched \<Longrightarrow>
     sched \<noteq> [] \<and> last sched = num_episodes"
  by (auto simp: compute_eval_schedule_def split: sum.splits if_splits)

lemma compute_eval_schedule_error:
  "compute_eval_schedule num_episodes eval_schedule = Inl e \<Longrightarrow>
     e = ZeroDivisionError \<and> eval_schedule = ScheduleInt 0"
  by (auto simp: compute_eval_schedule_def split: eval_schedule_arg.splits if_splits)

lemma compute_eval_schedule_returns:
  "eval_schedule \<noteq> ScheduleInt 0 \<Longrightarrow>
     \<exists>sched. compute_eval_schedule num_episodes eval_schedule = Inr sched"
  by (cases "compute_eval_schedule num_episodes eval_schedule")
     (auto dest: compute_eval_schedule_error)

lemma eval_schedule_shape:
  "(\<forall>sched. compute_eval_schedule num_episodes eval_schedule = Inr sched
       \<longrightarrow> sched \<noteq> [] \<and> last sched = num_episodes)
   \<and> (schedule_arg_ok num_episodes eval_schedule
       \<longrightarrow> (\<exists>sched. compute_eval_schedule num_episodes eval_schedule = Inr sched
                   \<and> sorted_wrt (<) sched \<and> distinct sched))"
proof (rule conjI)
  show "\<forall>sched. compute_eval_schedule num_episodes eval_schedule = Inr sched
          \<longrightarrow> sched \<noteq> [] \<and> last sched = num_episodes"
    using compute_eval_schedule_last by blast
next
  show "schedule_arg_ok num_episodes eval_schedule
          \<longrightarrow> (\<exists>sched. compute_eval_schedule num_episodes eval_schedule = Inr sched
                   \<and> sorted_wrt (<) sched \<and> distinct sched)"
  proof
  assume ok: "schedule_arg_ok num_episodes eval_schedule"
  define base where "base =
    (case eval_schedule of
       ScheduleNone \<Rightarrow> []
     | ScheduleInt k \<Rightarrow> map (\<lambda>i. k * i) [1..num_episodes div k]
     | ScheduleList xs \<Rightarrow> sort xs)"
  define sched where
    "sched = (if base = [] \<or> num_episodes \<noteq> last base then base @ [num_episodes] else base)"
  from ok have run: "compute_eval_schedule num_episodes eval_schedule = Inr sched"
    by (auto simp: compute_eval_schedule_def schedule_arg_ok_def base_def sched_def
        split: eval_schedule_arg.splits)
  have asc: "sorted_wrt (<) base"
  proof (cases eval_schedule)
    case ScheduleNone
    then show ?thesis by (simp add: base_def)
  next
    case (ScheduleInt k)
    with ok have "0 < k" by (simp add: schedule_arg_ok_def)
    then show ?thesis by (simp add: base_def ScheduleInt periodic_ascending)
  next
    case (ScheduleList xs)
    with ok have "distinct xs" by (simp add: schedule_arg_ok_def)
    then show ?thesis by (simp add: base_def ScheduleList strict_sorted_iff)
  qed
  from ok have bnd: "\<forall>x \<in> set base. x \<le> num_episodes"
    using periodic_bounded[of _ num_episodes]
    by (auto simp: schedule_arg_ok_def base_def list_all_iff split: eval_schedule_arg.splits)
  have "sorted_wrt (<) sched"
    using asc bnd strictly_ascending_snoc[of base num_episodes] by (simp add: sched_def)
  then have "sorted_wrt (<) sched \<and> distinct sched" by (simp add: strict_sorted_iff)
  with run show "\<exists>sched. compute_eval_schedule num_episodes eval_schedule = Inr sched
                   \<and> sorted_wrt (<) sched \<and> distinct sched" by blast
  qed
qed

subsection \<open>Composition of runs\<close>

lemma then_run_fst:
  "fst (then_run r f) = (if fst r = Completed then fst (f (snd (snd r))) else fst r)"
  by (simp add: then_run_def split: prod.splits)

lemma then_run_world:
  "snd (snd (then_run r f)) =
     (if fst r = Completed then snd (snd (f (snd (snd r)))) else snd (snd r))"
  by (simp add: then_run_def split: prod.splits)

lemma then_run_log:
  "fst (snd (then_run r f)) =
     (if fst r = Completed then fst (snd r) @ fst (snd (f (snd (snd r)))) else fst (snd r))"
  by (simp add: then_run_def split: prod.splits)

lemma events_triple [simp]: "events (out, tr, s) = map fst tr"
  by (simp add: events_def)

lemma then_run_events:
  "events (then_run r f) =
     (if fst r = Completed then events r @ events (f (snd (snd r))) else events r)"
  by (simp add: events_def then_run_log)

lemma emit_simps [simp]:
  "fst (emit e f s) = Completed"
  "fst (snd (emit e f s)) = [(e, f (snd s))]"
  "events (emit e f s) = [e]"
  "snd (snd (emit e f s)) = (fst s, f (snd s))"
  by (simp_all add: emit_def)

lemma round_trip_simps [simp]:
  "fst (round_trip c msg s) = Completed"
  "fst (snd (round_trip c msg s)) =
     [(RoundTrip msg (fst (proxy_send c msg (snd s))), snd (proxy_send c msg (snd s))),
      (SetPolicyStates (reply_policy_state (fst (proxy_send c msg (snd s)))),
       set_policy_states c (reply_policy_state (fst (proxy_send c msg (snd s))))
         (snd (proxy_send c msg (snd s))))]"
  "events (round_trip c msg s) =
     [RoundTrip msg (fst (proxy_send c msg (snd s))),
      SetPolicyStates (reply_policy_state (fst (proxy_send c msg (snd s))))]"
  "snd (snd (round_trip c msg s)) =
     (Some (reply_version (fst (proxy_send c msg (snd s)))),
      set_policy_states c (reply_policy_state (fst (proxy_send c msg (snd s))))
        (snd (proxy_send c msg (snd s))))"
  by (simp_all add: round_trip_def split: prod.splits)

lemma collect_done_simps [simp]:
  "fst (collect_done c s) = Completed"
  "events (collect_done c s) =
     [GetExperiences,
      RoundTrip (COLLECT_DONE (fst (get_experiences_by_policy c (snd s))) (fst s))
        (fst (proxy_send c (COLLECT_DONE (fst (get_experiences_by_policy c (snd s))) (fst s))
               (snd (get_experiences_by_policy c (snd s))))),
      SetPolicyStates
        (reply_policy_state
          (fst (proxy_send c (COLLECT_DONE (fst (get_experiences_by_policy c (snd s))) (fst s))
                 (snd (get_experiences_by_policy c (snd s))))))]"
  "snd (snd (snd (collect_done c s))) =
     set_policy_states c
       (reply_policy_state
         (fst (proxy_send c (COLLECT_DONE (fst (get_experiences_by_policy c (snd s))) (fst s))
                (snd (get_experiences_by_policy c (snd s))))))
       (snd (proxy_send c (COLLECT_DONE (fst (get_experiences_by_policy c (snd s))) (fst s))
              (snd (get_experiences_by_policy c (snd s)))))"
  by (simp_all add: collect_done_def then_run_fst then_run_events then_run_world split: prod.splits)

subsection \<open>Events that do not occur\<close>

lemma avoids_then_run:
  "avoids E r \<Longrightarrow> (\<And>s. avoids E (f s)) \<Longrightarrow> avoids E (then_run r f)"
  by (auto simp: avoids_def then_run_events)

lemma avoids_emit: "e \<notin> E \<Longrightarrow> avoids E (emit e f s)"
  by (simp add: avoids_def)

lemma avoids_Completed [simp]: "avoids E (out, [], s)"
  by (simp add: avoids_def)

lemma avoids_run_all:
  "(\<And>f s. f \<in> set fs \<Longrightarrow> avoids E (f s)) \<Longrightarrow> avoids E (run_all fs s)"
proof (induction fs arbitrary: s)
  case Nil
  then show ?case by simp
next
  case (Cons f fs)
  show ?case unfolding run_all.simps
  proof (rule avoids_then_run)
    show "avoids E (f s)" by (rule Cons.prems) simp
    show "avoids E (run_all fs s')" for s' by (rule Cons.IH) (simp add: Cons.prems)
  qed
qed

lemma collect_done_avoids:
  "GetExperiences \<notin> E \<Longrightarrow> (\<And>x v reply. RoundTrip (COLLECT_DONE x v) reply \<notin> E)
     \<Longrightarrow> (\<And>p. SetPolicyStates p \<notin> E) \<Longrightarrow> avoids E (collect_done c s)"
  by (simp add: avoids_def)

lemma rollout_avoids: "EnvStep \<notin> E \<Longrightarrow> avoids E (rollout n env k s)"
proof (induction n arbitrary: k s)
  case 0
  then show ?case by simp
next
  case (Suc n)
  then show ?case by (simp add: avoids_then_run avoids_emit)
qed

lemma eval_loop_avoids: "EvalEnvStep \<notin> E \<Longrightarrow> avoids E (eval_loop n env s)"
proof (induction n arbitrary: s)
  case 0
  then show ?case by simp
next
  case (Suc n)
  then show ?case by (simp add: avoids_then_run avoids_emit)
qed

lemma collect_avoids:
  assumes "EnvStep \<notin> E" and "GetExperiences \<notin> E"
    and "\<And>x v reply. RoundTrip (COLLECT_DONE x v) reply \<notin> E" and "\<And>p. SetPolicyStates p \<notin> E"
  shows "avoids E (collect fuel n c num_steps s)"
proof (induction n arbitrary: s)
  case 0
  then show ?case by simp
next
  case (Suc n)
  have "avoids E (run_all [rollout fuel (env_wrapper c) num_steps,
                    collect_done c,
                    collect fuel n c num_steps] s)"
    by (rule avoids_run_all)
       (use Suc assms in \<open>auto simp: rollout_avoids collect_done_avoids\<close>)
  then show ?case by simp
qed

lemma evaluate_avoids:
  "{Exploit, EvalEnvReset, EvalEnvStart, EvalEnvStep} \<inter> E = {} \<Longrightarrow> avoids E (evaluate fuel c s)"
  unfolding evaluate_def Let_def
  by (rule avoids_run_all) (auto simp: eval_loop_avoids avoids_emit)

lemma episode_body_avoids:
  assumes "{Explore, EnvReset, EnvStart, EnvStep, GetExperiences, ExplorationStep} \<inter> E = {}"
    and "\<And>x v reply. RoundTrip (COLLECT_DONE x v) reply \<notin> E" and "\<And>p. SetPolicyStates p \<notin> E"
  shows "avoids E (episode_body fuel c num_steps s)"
  unfolding episode_body_def
  by (rule avoids_run_all) (use assms in \<open>auto simp: collect_avoids avoids_emit\<close>)

lemma episodes_avoids:
  assumes "{Explore, EnvReset, EnvStart, EnvStep, GetExperiences, ExplorationStep,
            Exploit, EvalEnvReset, EvalEnvStart, EvalEnvStep} \<inter> E = {}"
    and "\<And>x v reply. RoundTrip (COLLECT_DONE x v) reply \<notin> E" and "\<And>p. SetPolicyStates p \<notin> E"
  shows "avoids E (episodes fuel c num_steps sched eps idx s)"
proof (induction eps arbitrary: idx s)
  case Nil
  show ?case by simp
next
  case (Cons ep eps)
  show ?case unfolding episodes.simps
  proof (rule avoids_then_run)
    show "avoids E (episode_body fuel c num_steps s)"
      by (rule episode_body_avoids) (use assms in auto)
  next
    fix s'
    have "avoids E (evaluate fuel c s')"
      by (rule evaluate_avoids) (use assms in auto)
    then have "avoids E (then_run (evaluate fuel c s') (episodes fuel c num_steps sched eps (idx + 1)))"
      by (rule avoids_then_run) (rule Cons.IH)
    then show "avoids E (if idx \<ge> length sched then (Raised IndexError, [], s')
             else if ep = sched ! idx
             then then_run (evaluate fuel c s') (episodes fuel c num_steps sched eps (idx + 1))
             else episodes fuel c num_steps sched eps idx s')"
      using Cons.IH by simp
  qed
qed

subsection \<open>Exceptions\<close>

lemma calm_then_run:
  "fst r \<noteq> Raised e \<Longrightarrow> (\<And>s. fst (f s) \<noteq> Raised e) \<Longrightarrow> fst (then_run r f) \<noteq> Raised e"
  by (simp add: then_run_fst)

lemma calm_run_all:
  "(\<And>f s. f \<in> set fs \<Longrightarrow> fst (f s) \<noteq> Raised e) \<Longrightarrow> fst (run_all fs s) \<noteq> Raised e"
proof (induction fs arbitrary: s)
  case Nil
  then show ?case by simp
next
  case (Cons f fs)
  show ?case unfolding run_all.simps
  proof (rule calm_then_run)
    show "fst (f s) \<noteq> Raised e" by (rule Cons.prems) simp
    show "fst (run_all fs s') \<noteq> Raised e" for s' by (rule Cons.IH) (simp add: Cons.prems)
  qed
qed

lemma rollout_calm: "fst (rollout n env k s) \<noteq> Raised e"
proof (induction n arbitrary: k s)
  case 0
  then show ?case by simp
next
  case (Suc n)
  then show ?case by (simp add: calm_then_run)
qed

lemma eval_loop_calm: "fst (eval_loop n env s) \<noteq> Raised e"
proof (induction n arbitrary: s)
  case 0
  then show ?case by simp
next
  case (Suc n)
  then show ?case by (simp add: calm_then_run)
qed

lemma collect_calm: "fst (collect fuel n c num_steps s) \<noteq> Raised e"
proof (induction n arbitrary: s)
  case 0
  then show ?case by simp
next
  case (Suc n)
  have "fst (run_all [rollout fuel (env_wrapper c) num_steps,
                    collect_done c,
                    collect fuel n c num_steps] s) \<noteq> Raised e"
    by (rule calm_run_all) (use Suc in \<open>auto simp: rollout_calm\<close>)
  then show ?case by simp
qed

lemma evaluate_calm: "fst (evaluate fuel c s) \<noteq> Raised e"
  unfolding evaluate_def Let_def
  by (rule calm_run_all) (auto simp: eval_loop_calm)

lemma episode_body_calm: "fst (episode_body fuel c num_steps s) \<noteq> Raised e"
  unfolding episode_body_def
  by (rule calm_run_all) (auto simp: collect_calm)

lemma episodes_raises_only_IndexError:
  assumes "e \<noteq> IndexError"
  shows "fst (episodes fuel c num_steps sched eps idx s) \<noteq> Raised e"
proof (induction eps arbitrary: idx s)
  case Nil
  show ?case by simp
next
  case (Cons ep eps)
  show ?case unfolding episodes.simps
  proof (rule calm_then_run)
    show "fst (episode_body fuel c num_steps s) \<noteq> Raised e" by (rule episode_body_calm)
  next
    fix s'
    have "fst (then_run (evaluate fuel c s') (episodes fuel c num_steps sched eps (idx + 1))) \<noteq> Raised e"
      by (rule calm_then_run) (rule evaluate_calm, rule Cons.IH)
    then show "fst (if idx \<ge> length sched then (Raised IndexError, [], s')
             else if ep = sched ! idx
             then then_run (evaluate fuel c s') (episodes fuel c num_steps sched eps (idx + 1))
             else episodes fuel c num_steps sched eps idx s') \<noteq> Raised e"
      using Cons.IH assms by auto
  qed
qed

lemma episodes_no_IndexError:
  assumes "sched \<noteq> []" and "last sched = n"
  shows "(k \<le> n \<longrightarrow> idx < length sched)
           \<Longrightarrow> fst (episodes fuel c num_steps sched [k..n] idx s) \<noteq> Raised e"
proof (induction "nat (n + 1 - k)" arbitrary: k idx s)
  case 0
  then have "[k..n] = []" by simp
  then show ?case by simp
next
  case (Suc m)
  then have kn: "k \<le> n" by linarith
  then have up: "[k..n] = k # [k + 1..n]" by (simp add: upto_rec1)
  from kn Suc.prems have idx: "idx < length sched" by simp
  have m: "m = nat (n + 1 - (k + 1))" using Suc.hyps(2) by linarith
  note IH = Suc.hyps(1)[OF m]
  have same: "fst (episodes fuel c num_steps sched [k + 1..n] idx s') \<noteq> Raised e" for s'
    by (rule IH) (use idx in simp)
  have next_idx: "fst (episodes fuel c num_steps sched [k + 1..n] (idx + 1) s') \<noteq> Raised e"
    if "k = sched ! idx" for s'
  proof (rule IH, rule impI)
    assume "k + 1 \<le> n"
    with that have "sched ! idx \<noteq> last sched" using assms(2) by simp
    then have "idx \<noteq> length sched - 1" using assms(1) by (auto simp: last_conv_nth)
    with idx show "idx + 1 < length sched" by simp
  qed
  show ?case unfolding up episodes.simps
  proof (rule calm_then_run)
    show "fst (episode_body fuel c num_steps s) \<noteq> Raised e" by (rule episode_body_calm)
  next
    fix s'
    show "fst (if idx \<ge> length sched then (Raised IndexError, [], s')
             else if k = sched ! idx
             then then_run (evaluate fuel c s') (episodes fuel c num_steps sched [k + 1..n] (idx + 1))
             else episodes fuel c num_steps sched [k + 1..n] idx s') \<noteq> Raised e"
    proof (cases "k = sched ! idx")
      case True
      have "fst (then_run (evaluate fuel c s') (episodes fuel c num_steps sched [k + 1..n] (idx + 1))) \<noteq> Raised e"
        by (rule calm_then_run) (rule evaluate_calm, rule next_idx[OF True])
      with idx True show ?thesis by simp
    next
      case False
      with idx same show ?thesis by simp
    qed
  qed
qed

subsection \<open>Episodes, states and versions\<close>

lemma episode_body_count:
  assumes "fst (episode_body fuel c num_steps s) = Completed"
  shows "count_list (events (episode_body fuel c num_steps s)) ExplorationStep = 1"
proof -
  have "avoids {ExplorationStep} (collect fuel fuel c num_steps s')" for s'
    by (rule collect_avoids) simp_all
  then have "count_list (events (collect fuel fuel c num_steps s')) ExplorationStep = 0" for s'
    by (simp add: avoids_def count_list_0_iff)
  with assms show ?thesis
    by (simp add: episode_body_def then_run_fst then_run_events then_run_world split: if_splits)
qed

lemma episodes_count:
  "fst (episodes fuel c num_steps sched eps idx s) = Completed \<Longrightarrow>
     count_list (events (episodes fuel c num_steps sched eps idx s)) ExplorationStep = length eps"
proof (induction eps arbitrary: idx s)
  case Nil
  show ?case by simp
next
  case (Cons ep eps)
  let ?b = "episode_body fuel c num_steps s"
  let ?s = "snd (snd ?b)"
  from Cons.prems have b: "fst ?b = Completed"
    by (simp add: then_run_fst split: if_splits)
  note cb = episode_body_count[OF b]
  from Cons.prems b have idx: "idx < length sched"
    by (auto simp: then_run_fst split: if_splits)
  show ?case
  proof (cases "ep = sched ! idx")
    case True
    let ?v = "evaluate fuel c ?s"
    from Cons.prems b idx True have v: "fst ?v = Completed"
      and rest: "fst (episodes fuel c num_steps sched eps (idx + 1) (snd (snd ?v))) = Completed"
      by (auto simp: then_run_fst split: if_splits)
    have "avoids {ExplorationStep} ?v" by (rule evaluate_avoids) simp
    then have "count_list (events ?v) ExplorationStep = 0"
      by (simp add: avoids_def count_list_0_iff)
    with cb Cons.IH[OF rest] b idx True v show ?thesis
      by (simp add: then_run_events)
  next
    case False
    with Cons.prems b idx have rest: "fst (episodes fuel c num_steps sched eps idx ?s) = Completed"
      by (simp add: then_run_fst)
    with cb Cons.IH[OF rest] b idx False show ?thesis
      by (simp add: then_run_events)
  qed
qed

lemma last_Cons_append: "last (a # xs @ ys) = last (last (a # xs) # ys)"
  by (cases ys) simp_all

lemma tracks_then_run:
  assumes "tracks w r" and "\<And>s. tracks (snd s) (f s)"
  shows "tracks w (then_run r f)"
proof (cases "fst r = Completed")
  case False
  with assms(1) show ?thesis by (simp add: tracks_def then_run_world then_run_log)
next
  case True
  let ?s = "snd (snd r)"
  from assms(2)[of ?s] have "snd (snd (snd (f ?s))) = last (snd ?s # map snd (fst (snd (f ?s))))"
    by (simp add: tracks_def)
  also have "snd ?s = last (w # map snd (fst (snd r)))" using assms(1) by (simp add: tracks_def)
  finally show ?thesis using True
    by (simp add: tracks_def then_run_world then_run_log last_Cons_append del: last.simps)
qed

lemma tracks_nil [simp]: "snd s = w \<Longrightarrow> tracks w (out, [], s)"
  by (simp add: tracks_def)

lemma tracks_emit [simp]: "snd s = w \<Longrightarrow> tracks w (emit e f s)"
  by (simp add: tracks_def)

lemma tracks_round_trip [simp]: "snd s = w \<Longrightarrow> tracks w (round_trip c msg s)"
  by (simp add: tracks_def)

lemma tracks_collect_done_snd: "tracks (snd s) (collect_done c s)"
proof -
  obtain x w where g: "get_experiences_by_policy c (snd s) = (x, w)"
    by (cases "get_experiences_by_policy c (snd s)")
  have "tracks (snd s) (Completed, [(GetExperiences, w)], (fst s, w))" by (simp add: tracks_def)
  then have "tracks (snd s) (then_run (Completed, [(GetExperiences, w)], (fst s, w))
                               (round_trip c (COLLECT_DONE x (fst s))))"
    by (rule tracks_then_run) simp
  with g show ?thesis by (simp add: collect_done_def)
qed

lemma tracks_collect_done [simp]: "snd s = w \<Longrightarrow> tracks w (collect_done c s)"
  using tracks_collect_done_snd by blast

lemma tracks_run_all:
  "(\<And>f s. f \<in> set fs \<Longrightarrow> tracks (snd s) (f s)) \<Longrightarrow> tracks (snd s) (run_all fs s)"
proof (induction fs arbitrary: s)
  case Nil
  then show ?case by simp
next
  case (Cons f fs)
  show ?case unfolding run_all.simps
  proof (rule tracks_then_run)
    show "tracks (snd s) (f s)" by (rule Cons.prems) simp
    show "tracks (snd s') (run_all fs s')" for s' by (rule Cons.IH) (simp add: Cons.prems)
  qed
qed

lemma tracks_rollout_snd: "tracks (snd s) (rollout n env k s)"
proof (induction n arbitrary: k s)
  case 0
  then show ?case by simp
next
  case (Suc n)
  then show ?case by (simp add: tracks_then_run)
qed

lemma tracks_rollout [simp]: "snd s = w \<Longrightarrow> tracks w (rollout n env k s)"
  using tracks_rollout_snd by blast

lemma tracks_eval_loop_snd: "tracks (snd s) (eval_loop n env s)"
proof (induction n arbitrary: s)
  case 0
  then show ?case by simp
next
  case (Suc n)
  then show ?case by (simp add: tracks_then_run)
qed

lemma tracks_eval_loop [simp]: "snd s = w \<Longrightarrow> tracks w (eval_loop n env s)"
  using tracks_eval_loop_snd by blast

lemma tracks_collect_snd: "tracks (snd s) (collect fuel n c num_steps s)"
proof (induction n arbitrary: s)
  case 0
  then show ?case by simp
next
  case (Suc n)
  have "tracks (snd s) (run_all [rollout fuel (env_wrapper c) num_steps,
                    collect_done c,
                    collect fuel n c num_steps] s)"
    by (rule tracks_run_all) (use Suc in auto)
  then show ?case by simp
qed

lemma tracks_collect [simp]: "snd s = w \<Longrightarrow> tracks w (collect fuel n c num_steps s)"
  using tracks_collect_snd by blast

lemma tracks_evaluate: "tracks (snd s) (evaluate fuel c s)"
  unfolding evaluate_def Let_def
  by (rule tracks_run_all) auto

lemma tracks_episode_body: "tracks (snd s) (episode_body fuel c num_steps s)"
  unfolding episode_body_def
  by (rule tracks_run_all) auto

lemma tracks_episodes: "tracks (snd s) (episodes fuel c num_steps sched eps idx s)"
proof (induction eps arbitrary: idx s)
  case Nil
  show ?case by simp
next
  case (Cons ep eps)
  show ?case unfolding episodes.simps
  proof (rule tracks_then_run)
    show "tracks (snd s) (episode_body fuel c num_steps s)" by (rule tracks_episode_body)
  next
    fix s'
    have "tracks (snd s') (then_run (evaluate fuel c s') (episodes fuel c num_steps sched eps (idx + 1)))"
      by (rule tracks_then_run) (rule tracks_evaluate, rule Cons.IH)
    then show "tracks (snd s') (if idx \<ge> length sched then (Raised IndexError, [], s')
             else if ep = sched ! idx
             then then_run (evaluate fuel c s') (episodes fuel c num_steps sched eps (idx + 1))
             else episodes fuel c num_steps sched eps idx s')"
      using Cons.IH by simp
  qed
qed

lemma episodes_first:
  "eps \<noteq> [] \<Longrightarrow>
     \<exists>rest. fst (snd (episodes fuel c num_steps sched eps idx s)) =
              (Explore, explore c (snd s)) # rest"
proof (cases eps)
  case Nil
  then show "eps \<noteq> [] \<Longrightarrow> ?thesis" by simp
next
  case (Cons ep eps')
  have "\<exists>rest. fst (snd (episode_body fuel c num_steps s)) = (Explore, explore c (snd s)) # rest"
    by (simp add: episode_body_def then_run_log)
  then show ?thesis by (auto simp: Cons then_run_log)
qed

lemma sent_versions_append:
  "sent_versions (xs @ ys) = sent_versions xs @ sent_versions ys"
  by (induction xs rule: sent_versions.induct) simp_all

lemma carries_then_run:
  assumes "carries v r" and "\<And>s. carries (fst s) (f s)"
  shows "carries v (then_run r f)"
proof (cases "fst r = Completed")
  case False
  with assms(1) show ?thesis
    by (simp add: carries_def then_run_world then_run_events split: list.splits)
next
  case True
  let ?s = "snd (snd r)"
  show ?thesis
  proof (cases "sent_versions (events r)")
    case Nil
    with assms(1) have "fst ?s = v" by (simp add: carries_def)
    with assms(2)[of ?s] Nil True show ?thesis
      by (simp add: carries_def then_run_world then_run_events sent_versions_append
          split: list.splits)
  next
    case (Cons v' vs)
    with assms(1) True show ?thesis
      by (simp add: carries_def then_run_world then_run_events sent_versions_append)
  qed
qed

lemma carries_nil [simp]: "fst s = v \<Longrightarrow> carries v (out, [], s)"
  by (simp add: carries_def)

lemma carries_emit [simp]:
  "sent_versions [e] = [] \<Longrightarrow> fst s = v \<Longrightarrow> carries v (emit e f s)"
  by (simp add: carries_def)

lemma carries_collect_done [simp]: "fst s = v \<Longrightarrow> carries v (collect_done c s)"
  by (simp add: carries_def)

lemma carries_run_all:
  "(\<And>f s. f \<in> set fs \<Longrightarrow> carries (fst s) (f s)) \<Longrightarrow> carries (fst s) (run_all fs s)"
proof (induction fs arbitrary: s)
  case Nil
  then show ?case by simp
next
  case (Cons f fs)
  show ?case unfolding run_all.simps
  proof (rule carries_then_run)
    show "carries (fst s) (f s)" by (rule Cons.prems) simp
    show "carries (fst s') (run_all fs s')" for s' by (rule Cons.IH) (simp add: Cons.prems)
  qed
qed

lemma carries_rollout_fst: "carries (fst s) (rollout n env k s)"
proof (induction n arbitrary: k s)
  case 0
  then show ?case by simp
next
  case (Suc n)
  then show ?case by (simp add: carries_then_run)
qed

lemma carries_rollout [simp]: "fst s = v \<Longrightarrow> carries v (rollout n env k s)"
  using carries_rollout_fst by blast

lemma carries_eval_loop_fst: "carries (fst s) (eval_loop n env s)"
proof (induction n arbitrary: s)
  case 0
  then show ?case by simp
next
  case (Suc n)
  then show ?case by (simp add: carries_then_run)
qed

lemma carries_eval_loop [simp]: "fst s = v \<Longrightarrow> carries v (eval_loop n env s)"
  using carries_eval_loop_fst by blast

lemma carries_collect_fst: "carries (fst s) (collect fuel n c num_steps s)"
proof (induction n arbitrary: s)
  case 0
  then show ?case by simp
next
  case (Suc n)
  have "carries (fst s) (run_all [rollout fuel (env_wrapper c) num_steps,
                    collect_done c,
                    collect fuel n c num_steps] s)"
    by (rule carries_run_all) (use Suc in auto)
  then show ?case by simp
qed

lemma carries_collect [simp]: "fst s = v \<Longrightarrow> carries v (collect fuel n c num_steps s)"
  using carries_collect_fst by blast

lemma carries_evaluate: "carries (fst s) (evaluate fuel c s)"
  unfolding evaluate_def Let_def
  by (rule carries_run_all) auto

lemma carries_episode_body: "carries (fst s) (episode_body fuel c num_steps s)"
  unfolding episode_body_def
  by (rule carries_run_all) auto

lemma carries_episodes: "carries (fst s) (episodes fuel c num_steps sched eps idx s)"
proof (induction eps arbitrary: idx s)
  case Nil
  show ?case by simp
next
  case (Cons ep eps)
  show ?case unfolding episodes.simps
  proof (rule carries_then_run)
    show "carries (fst s) (episode_body fuel c num_steps s)" by (rule carries_episode_body)
  next
    fix s'
    have "carries (fst s') (then_run (evaluate fuel c s') (episodes fuel c num_steps sched eps (idx + 1)))"
      by (rule carries_then_run) (rule carries_evaluate, rule Cons.IH)
    then show "carries (fst s') (if idx \<ge> length sched then (Raised IndexError, [], s')
             else if ep = sched ! idx
             then then_run (evaluate fuel c s') (episodes fuel c num_steps sched eps (idx + 1))
             else episodes fuel c num_steps sched eps idx s')"
      using Cons.IH by simp
  qed
qed


subsection \<open>Enough fuel completes the run\<close>

lemma fuelled_then_run:
  "fst r \<noteq> OutOfFuel \<Longrightarrow> (\<And>s. fst (f s) \<noteq> OutOfFuel) \<Longrightarrow> fst (then_run r f) \<noteq> OutOfFuel"
  by (simp add: then_run_fst)

lemma rollout_completes:
  assumes "\<forall>w. env_state env w \<longrightarrow> m (env_step env w) < m w"
  shows "m (snd s) \<le> n \<Longrightarrow>
          fst (rollout n env k s :: ('x, 'v, 'p, 'w) run) = Completed
          \<and> m (snd (snd (snd (rollout n env k s :: ('x, 'v, 'p, 'w) run)))) \<le> m (snd s)
          \<and> (env_state env (snd s) \<and> k \<noteq> 0
               \<longrightarrow> m (snd (snd (snd (rollout n env k s :: ('x, 'v, 'p, 'w) run)))) < m (snd s))"
proof (induction n arbitrary: k s)
  case 0
  then have "m (snd s) = 0" by simp
  with assms have "\<not> env_state env (snd s)" by (metis not_less_zero)
  then show ?case by simp
next
  case (Suc n)
  show ?case
  proof (cases "env_state env (snd s) \<and> k \<noteq> 0")
    case False
    then show ?thesis by auto
  next
    case True
    with assms have lt: "m (env_step env (snd s)) < m (snd s)" by simp
    with Suc.prems have "m (snd (fst s, env_step env (snd s))) \<le> n" by simp
    from Suc.IH[OF this, of "k - 1"] lt True show ?thesis
      by (simp add: then_run_fst then_run_world)
  qed
qed

lemma eval_loop_completes:
  assumes "\<forall>w. env_state env w \<longrightarrow> m (env_step env w) < m w"
  shows "m (snd s) \<le> n \<Longrightarrow> fst (eval_loop n env s) = Completed"
proof (induction n arbitrary: s)
  case 0
  then have "m (snd s) = 0" by simp
  with assms have "\<not> env_state env (snd s)" by (metis not_less_zero)
  then show ?case by simp
next
  case (Suc n)
  show ?case
  proof (cases "env_state env (snd s)")
    case False
    then show ?thesis by simp
  next
    case True
    with assms have lt: "m (env_step env (snd s)) < m (snd s)" by simp
    with Suc.prems have "m (snd (fst s, env_step env (snd s))) \<le> n" by simp
    from Suc.IH[OF this] True show ?thesis by (simp add: then_run_fst)
  qed
qed

lemma collect_done_measure:
  fixes m :: "'w \<Rightarrow> nat"
  assumes "\<forall>w. m (snd (get_experiences_by_policy c w)) \<le> m w"
    and "\<forall>msg w. m (snd (proxy_send c msg w)) \<le> m w"
    and "\<forall>p w. m (set_policy_states c p w) \<le> m w"
  shows "m (snd (snd (snd (collect_done c s)))) \<le> m (snd s)"
proof -
  let ?g = "get_experiences_by_policy c (snd s)"
  let ?p = "proxy_send c (COLLECT_DONE (fst ?g) (fst s)) (snd ?g)"
  have "m (set_policy_states c (reply_policy_state (fst ?p)) (snd ?p)) \<le> m (snd ?p)"
    using assms(3) by simp
  also have "\<dots> \<le> m (snd ?g)" using assms(2) by simp
  also have "\<dots> \<le> m (snd s)" using assms(1) by simp
  finally show ?thesis by simp
qed

lemma collect_completes:
  fixes c :: "('w, 'x, 'v, 'p) collaborators"
  assumes "\<forall>w. env_state (env_wrapper c) w \<longrightarrow> m (env_step (env_wrapper c) w) < m w"
    and "\<forall>w. m (snd (get_experiences_by_policy c w)) \<le> m w"
    and "\<forall>msg w. m (snd (proxy_send c msg w)) \<le> m w"
    and "\<forall>p w. m (set_policy_states c p w) \<le> m w"
    and "num_steps \<noteq> 0"
  shows "m (snd s) \<le> fuel \<Longrightarrow> m (snd s) \<le> n \<Longrightarrow> fst (collect fuel n c num_steps s) = Completed"
proof (induction n arbitrary: s)
  case 0
  then have "m (snd s) = 0" by simp
  with assms(1) have "\<not> env_state (env_wrapper c) (snd s)" by (metis not_less_zero)
  then show ?case by simp
next
  case (Suc n)
  show ?case
  proof (cases "env_state (env_wrapper c) (snd s)")
    case False
    then show ?thesis by simp
  next
    case True
    let ?r = "rollout fuel (env_wrapper c) num_steps s :: ('x, 'v, 'p, 'w) run"
    let ?s = "snd (snd (collect_done c (snd (snd ?r))))"
    have "fst ?r = Completed
          \<and> m (snd (snd (snd ?r))) \<le> m (snd s)
          \<and> (env_state (env_wrapper c) (snd s) \<and> num_steps \<noteq> 0
               \<longrightarrow> m (snd (snd (snd ?r))) < m (snd s))"
      by (rule rollout_completes[OF assms(1) Suc.prems(1)])
    with True assms(5)
    have r: "fst ?r = Completed" and lt: "m (snd (snd (snd ?r))) < m (snd s)" by simp_all
    from collect_done_measure[OF assms(2,3,4)] have "m (snd ?s) \<le> m (snd (snd (snd ?r)))" .
    with lt Suc.prems have "m (snd ?s) \<le> fuel" "m (snd ?s) \<le> n" by simp_all
    then have "fst (collect fuel n c num_steps ?s) = Completed" by (rule Suc.IH)
    with True r show ?thesis by (simp add: then_run_fst then_run_world)
  qed
qed

lemma episode_body_completes:
  assumes "step_bounded m b (env_wrapper c)"
    and "\<forall>w. m (snd (get_experiences_by_policy c w)) \<le> m w"
    and "\<forall>msg w. m (snd (proxy_send c msg w)) \<le> m w"
    and "\<forall>p w. m (set_policy_states c p w) \<le> m w"
    and "num_steps \<noteq> 0" and "b \<le> fuel"
  shows "fst (episode_body fuel c num_steps s) = Completed"
proof -
  let ?w = "env_start (env_wrapper c) (env_reset (env_wrapper c) (explore c (snd s)))"
  from assms(1) have dec: "\<forall>w. env_state (env_wrapper c) w \<longrightarrow> m (env_step (env_wrapper c) w) < m w"
    and bw: "m ?w \<le> b" by (simp_all add: step_bounded_def)
  from bw assms(6) have "m (snd (fst s, ?w)) \<le> fuel" by simp
  then have "fst (collect fuel fuel c num_steps (fst s, ?w)) = Completed"
    by (simp add: collect_completes[OF dec assms(2,3,4,5)])
  then show ?thesis by (simp add: episode_body_def then_run_fst then_run_world)
qed

lemma evaluate_completes:
  assumes "step_bounded m b (case eval_env_wrapper c of None \<Rightarrow> env_wrapper c | Some e \<Rightarrow> e)"
    and "b \<le> fuel"
  shows "fst (evaluate fuel c s) = Completed"
proof -
  let ?env = "case eval_env_wrapper c of None \<Rightarrow> env_wrapper c | Some e \<Rightarrow> e"
  let ?w = "env_start ?env (env_reset ?env (exploit c (snd s)))"
  from assms(1) have dec: "\<forall>w. env_state ?env w \<longrightarrow> m (env_step ?env w) < m w"
    and bw: "m ?w \<le> b" by (simp_all add: step_bounded_def)
  from bw assms(2) have "m (snd (fst s, ?w)) \<le> fuel" by simp
  then have "fst (eval_loop fuel ?env (fst s, ?w)) = Completed" by (rule eval_loop_completes[OF dec])
  then show ?thesis by (simp add: evaluate_def Let_def then_run_fst then_run_world)
qed

lemma episodes_fuelled:
  assumes "terminating b c" and "num_steps \<noteq> 0" and "b \<le> fuel"
  shows "fst (episodes fuel c num_steps sched eps idx s) \<noteq> OutOfFuel"
proof (induction eps arbitrary: idx s)
  case Nil
  show ?case by simp
next
  case (Cons ep eps)
  from assms(1) obtain m m' where tr: "step_bounded m b (env_wrapper c)"
    and ge: "\<forall>w. m (snd (get_experiences_by_policy c w)) \<le> m w"
    and ps: "\<forall>msg w. m (snd (proxy_send c msg w)) \<le> m w"
    and sp: "\<forall>p w. m (set_policy_states c p w) \<le> m w"
    and ev: "step_bounded m' b (case eval_env_wrapper c of None \<Rightarrow> env_wrapper c | Some e \<Rightarrow> e)"
    by (auto simp: terminating_def)
  show ?case unfolding episodes.simps
  proof (rule fuelled_then_run)
    show "fst (episode_body fuel c num_steps s) \<noteq> OutOfFuel"
      by (simp add: episode_body_completes[OF tr ge ps sp assms(2,3)])
  next
    fix s'
    have "fst (then_run (evaluate fuel c s') (episodes fuel c num_steps sched eps (idx + 1))) \<noteq> OutOfFuel"
      by (rule fuelled_then_run) (simp add: evaluate_completes[OF ev assms(3)], rule Cons.IH)
    then show "fst (if idx \<ge> length sched then (Raised IndexError, [], s')
             else if ep = sched ! idx
             then then_run (evaluate fuel c s') (episodes fuel c num_steps sched eps (idx + 1))
             else episodes fuel c num_steps sched eps idx s') \<noteq> OutOfFuel"
      using Cons.IH by simp
  qed
qed

subsection \<open>The whole run\<close>

lemma actor_unfold:
  assumes "\<not> (num_steps = 0 \<or> num_steps < -1)"
    and "compute_eval_schedule num_episodes eval_schedule = Inr sched"
    and "proxy_send c GET_INITIAL_POLICY_STATE (new_proxy c w) = (reply, w1)"
    and "w2 = set_policy_states c (reply_policy_state reply) w1"
    and "r = episodes fuel c num_steps sched [1..num_episodes] 0 (Some (reply_version reply), w2)"
  shows "actor fuel c num_episodes num_steps eval_schedule w =
    (if fst r = Completed
     then (Completed,
           [(OpenProxy, new_proxy c w),
            (RoundTrip GET_INITIAL_POLICY_STATE reply, w1),
            (SetPolicyStates (reply_policy_state reply), w2)]
           @ fst (snd r)
           @ [(Notification DONE, proxy_isend c DONE (snd (snd (snd r)))),
              (CloseProxy, proxy_close c (proxy_isend c DONE (snd (snd (snd r)))))],
           proxy_close c (proxy_isend c DONE (snd (snd (snd r)))))
     else (fst r,
           [(OpenProxy, new_proxy c w),
            (RoundTrip GET_INITIAL_POLICY_STATE reply, w1),
            (SetPolicyStates (reply_policy_state reply), w2)]
           @ fst (snd r),
           snd (snd (snd r))))"
  using assms
  by (simp add: actor_def then_run_def emit_def round_trip_def split: prod.splits)

lemma actor_completes:
  assumes "\<not> (num_steps = 0 \<or> num_steps < -1)" and "eval_schedule \<noteq> ScheduleInt 0"
    and "terminating b c" and "b \<le> fuel"
  shows "fst (actor fuel c num_episodes num_steps eval_schedule w) = Completed"
proof -
  from assms(2) obtain sched
    where sched: "compute_eval_schedule num_episodes eval_schedule = Inr sched"
    using compute_eval_schedule_returns by blast
  obtain reply w1 where rt: "proxy_send c GET_INITIAL_POLICY_STATE (new_proxy c w) = (reply, w1)"
    by (cases "proxy_send c GET_INITIAL_POLICY_STATE (new_proxy c w)")
  define w2 where "w2 = set_policy_states c (reply_policy_state reply) w1"
  define r where
    "r = episodes fuel c num_steps sched [1..num_episodes] 0 (Some (reply_version reply), w2)"
  from compute_eval_schedule_last[OF sched]
  have ne: "sched \<noteq> []" and last: "last sched = num_episodes" by simp_all
  have calm: "fst r \<noteq> Raised e" for e
    unfolding r_def by (rule episodes_no_IndexError[OF ne last]) (use ne in simp)
  from assms(1) have "num_steps \<noteq> 0" by simp
  with assms(3) have "fst r \<noteq> OutOfFuel" unfolding r_def using assms(4) by (rule episodes_fuelled)
  with calm have "fst r = Completed" by (cases "fst r") auto
  then show ?thesis by (simp add: actor_unfold[OF assms(1) sched rt w2_def r_def])
qed

lemma sample_terminating: "terminating 2 sample_collaborators"
proof -
  have "step_bounded steps_left 2 countdown_env"
    by (simp add: step_bounded_def countdown_env_def)
  then show ?thesis
    unfolding terminating_def by (auto simp: sample_collaborators_def)
qed

lemma sample_run:
  "actor 3 sample_collaborators 1 (-1) ScheduleNone idle_world =
     (Completed,
      [(OpenProxy, \<lparr>steps_left = 0, adopted = 0, outbox = []\<rparr>),
       (RoundTrip GET_INITIAL_POLICY_STATE \<lparr>reply_version = 0, reply_policy_state = 10\<rparr>,
        \<lparr>steps_left = 0, adopted = 0, outbox = [GET_INITIAL_POLICY_STATE]\<rparr>),
       (SetPolicyStates 10, \<lparr>steps_left = 0, adopted = 10, outbox = [GET_INITIAL_POLICY_STATE]\<rparr>),
       (Explore, \<lparr>steps_left = 0, adopted = 10, outbox = [GET_INITIAL_POLICY_STATE]\<rparr>),
       (EnvReset, \<lparr>steps_left = 2, adopted = 10, outbox = [GET_INITIAL_POLICY_STATE]\<rparr>),
       (EnvStart, \<lparr>steps_left = 2, adopted = 10, outbox = [GET_INITIAL_POLICY_STATE]\<rparr>),
       (EnvStep, \<lparr>steps_left = 1, adopted = 10, outbox = [GET_INITIAL_POLICY_STATE]\<rparr>),
       (EnvStep, \<lparr>steps_left = 0, adopted = 10, outbox = [GET_INITIAL_POLICY_STATE]\<rparr>),
       (GetExperiences, \<lparr>steps_left = 0, adopted = 10, outbox = [GET_INITIAL_POLICY_STATE]\<rparr>),
       (RoundTrip (COLLECT_DONE () (Some 0)) \<lparr>reply_version = 1, reply_policy_state = 11\<rparr>,
        \<lparr>steps_left = 0, adopted = 10,
           outbox = [GET_INITIAL_POLICY_STATE, COLLECT_DONE () (Some 0)]\<rparr>),
       (SetPolicyStates 11,
        \<lparr>steps_left = 0, adopted = 11,
           outbox = [GET_INITIAL_POLICY_STATE, COLLECT_DONE () (Some 0)]\<rparr>),
       (ExplorationStep,
        \<lparr>steps_left = 0, adopted = 11,
           outbox = [GET_INITIAL_POLICY_STATE, COLLECT_DONE () (Some 0)]\<rparr>),
       (Exploit,
        \<lparr>steps_left = 0, adopted = 11,
           outbox = [GET_INITIAL_POLICY_STATE, COLLECT_DONE () (Some 0)]\<rparr>),
       (EvalEnvReset,
        \<lparr>steps_left = 2, adopted = 11,
           outbox = [GET_INITIAL_POLICY_STATE, COLLECT_DONE () (Some 0)]\<rparr>),
       (EvalEnvStart,
        \<lparr>steps_left = 2, adopted = 11,
           outbox = [GET_INITIAL_POLICY_STATE, COLLECT_DONE () (Some 0)]\<rparr>),
       (EvalEnvStep,
        \<lparr>steps_left = 1, adopted = 11,
           outbox = [GET_INITIAL_POLICY_STATE, COLLECT_DONE () (Some 0)]\<rparr>),
       (EvalEnvStep,
        \<lparr>steps_left = 0, adopted = 11,
           outbox = [GET_INITIAL_POLICY_STATE, COLLECT_DONE () (Some 0)]\<rparr>),
       (Notification DONE,
        \<lparr>steps_left = 0, adopted = 11,
           outbox = [GET_INITIAL_POLICY_STATE, COLLECT_DONE () (Some 0), DONE]\<rparr>),
       (CloseProxy,
        \<lparr>steps_left = 0, adopted = 11,
           outbox = [GET_INITIAL_POLICY_STATE, COLLECT_DONE () (Some 0), DONE]\<rparr>)],
      \<lparr>steps_left = 0, adopted = 11,
         outbox = [GET_INITIAL_POLICY_STATE, COLLECT_DONE () (Some 0), DONE]\<rparr>)"
  by code_simp

section \<open>The claims about the policy manager\<close>









text \<open>
  Claim C5. Whatever the manager's state, when \<open>get_state\<close> returns, a second \<open>get_state\<close>
  with no \<open>on_experiences\<close> in between returns the empty dictionary and leaves the manager
  as it is.
\<close>

theorem get_state_twice:
  assumes "get_state mgr = Inr (states, mgr1)"
  shows "get_state mgr1 = Inr (Map.empty, mgr1)"
proof -
  from assms have "mgr1 = mgr\<lparr>updated_policy_ids := {}\<rparr>"
    by (simp add: get_state_def split: if_splits)
  then show ?thesis by (simp add: get_state_def)
qed

theorem get_state_twice_witness:
  "\<exists>states mgr1.
     get_state ((sample_manager [])\<lparr>updated_policy_ids := {''p''}\<rparr>) = Inr (states, mgr1)
     \<and> states ''p'' = Some 0
     \<and> get_state mgr1 = Inr (Map.empty, mgr1)"
proof -
  let ?mgr = "(sample_manager [])\<lparr>updated_policy_ids := {''p''}\<rparr>"
  obtain states mgr1 where r: "get_state ?mgr = Inr (states, mgr1)"
    and p: "states ''p'' = Some 0"
    by (simp add: get_state_def sample_manager_def sample_policy_dict_def sample_heap_def learner_def)
  from get_state_twice[OF r] r p show ?thesis by blast
qed

text \<open>
  Claim C7. With a trigger dictionary, the constructor raises \<open>ValueError\<close> if and only if
  some key of the dictionary is not a key of \<open>policy_dict\<close>; the error is the constructor's
  result, so no manager exists then, and otherwise a manager is returned.
\<close>

theorem init_trigger_keys:
  "(init h pd (TriggerDict d) = Inl ValueError
      \<longleftrightarrow> (\<exists>policy_id \<in> set (map fst d). policy_id \<notin> set (map fst pd)))
   \<and> ((\<forall>policy_id \<in> set (map fst d). policy_id \<in> set (map fst pd))
      \<longrightarrow> (\<exists>mgr. init h pd (TriggerDict d) = Inr mgr))"
  by (auto simp: init_def Let_def)

theorem init_trigger_keys_witness:
  "init sample_heap sample_policy_dict (TriggerDict [(''p'', default_trigger), (''z'', default_trigger)])
     = Inl ValueError
   \<and> (\<exists>mgr. init sample_heap sample_policy_dict (TriggerDict [(''p'', default_trigger)]) = Inr mgr)"
  using init_trigger_keys[of sample_heap sample_policy_dict
          "[(''p'', default_trigger), (''z'', default_trigger)]"]
        init_trigger_keys[of sample_heap sample_policy_dict "[(''p'', default_trigger)]"]
  by (simp add: sample_policy_dict_def)



text \<open>
  Claim C10. A call of \<open>on_experiences\<close> whose experience mapping has a key that is not a
  key of \<open>policy_dict\<close> raises \<open>KeyError\<close>.
\<close>

theorem unknown_policy_KeyError:
  assumes "policy_id \<in> set (map fst exp_by_policy)"
    and "policy_id \<notin> set (map fst (policy_dict mgr))"
  shows "on_experiences ops mgr exp_by_policy = Inl KeyError"
proof -
  from assms have "\<not> set (map fst exp_by_policy) \<subseteq> set (map fst (policy_dict mgr))" by blast
  then have "store_experiences ops mgr exp_by_policy = Inl KeyError"
    by (rule store_experiences_KeyError)
  then show ?thesis by (simp add: on_experiences_def)
qed

theorem unknown_policy_KeyError_witness:
  "on_experiences list_memory (sample_manager []) [(''p'', [1, 2]), (''z'', [3])] = Inl KeyError"
  by (rule unknown_policy_KeyError[of "''z''"])
     (simp_all add: sample_manager_def sample_policy_dict_def)

section \<open>The claims about the actor\<close>

text \<open>
  Claim C3. The claim holds of the schedule for \<open>None\<close>, for a positive period and for a
  list without duplicates whose entries do not exceed the number of episodes
  (\<open>eval_schedule_shape\<close>), and the code breaks it for other lists: it sorts the list and
  appends the number of episodes when the last entry differs, and neither removes
  duplicates nor bounds the entries. With 3 episodes the list \<open>[2, 2]\<close> gives the schedule
  \<open>[2, 2, 3]\<close>, which has a duplicate; the index stays on the second 2 and no evaluation
  follows the third episode. The list \<open>[5]\<close> gives \<open>[5, 3]\<close>, which descends, and no
  evaluation takes place at all. Both runs break what the function's documentation
  promises, an evaluation at the end of the last training episode in any case.
\<close>

theorem eval_schedule_last_episode:
  "compute_eval_schedule 3 (ScheduleList [2, 2]) = Inr [2, 2, 3]
   \<and> \<not> distinct [2, 2, 3 :: int]
   \<and> \<not> sorted_wrt (<) [2, 2, 3 :: int]
   \<and> milestones (actor 5 sample_collaborators 3 (-1) (ScheduleList [2, 2]) idle_world) =
       [ExplorationStep, ExplorationStep, Exploit, ExplorationStep]
   \<and> compute_eval_schedule 3 (ScheduleList [5]) = Inr [5, 3]
   \<and> \<not> sorted_wrt (<) [5, 3 :: int]
   \<and> milestones (actor 5 sample_collaborators 3 (-1) (ScheduleList [5]) idle_world) =
       [ExplorationStep, ExplorationStep, ExplorationStep]"
  by code_simp

text \<open>
  Claim C6. The actor raises \<open>ValueError\<close>, the error of the step-budget check, if and only
  if \<open>num_steps\<close> is 0 or less than -1; it does so before any event, hence before any round
  trip and any use of the environment, and leaves the collaborators untouched. The value -1
  and every positive value pass the check.
\<close>

theorem step_budget_validation:
  "(fst (actor fuel c num_episodes num_steps eval_schedule w) = Raised ValueError
      \<longleftrightarrow> num_steps = 0 \<or> num_steps < -1)
   \<and> (num_steps = 0 \<or> num_steps < -1
      \<longrightarrow> actor fuel c num_episodes num_steps eval_schedule w = (Raised ValueError, [], w))"
proof -
  have bad: "actor fuel c num_episodes num_steps eval_schedule w = (Raised ValueError, [], w)"
    if "num_steps = 0 \<or> num_steps < -1"
    using that by (simp add: actor_def)
  have good: "fst (actor fuel c num_episodes num_steps eval_schedule w) \<noteq> Raised ValueError"
    if ok: "\<not> (num_steps = 0 \<or> num_steps < -1)"
  proof (cases "compute_eval_schedule num_episodes eval_schedule")
    case (Inl e)
    then have "e = ZeroDivisionError" by (simp add: compute_eval_schedule_error)
    with Inl ok show ?thesis by (simp add: actor_def)
  next
    case (Inr sched)
    obtain reply w1 where rt: "proxy_send c GET_INITIAL_POLICY_STATE (new_proxy c w) = (reply, w1)"
      by (cases "proxy_send c GET_INITIAL_POLICY_STATE (new_proxy c w)")
    have "fst (episodes fuel c num_steps sched [1..num_episodes] 0
                 (Some (reply_version reply), set_policy_states c (reply_policy_state reply) w1))
            \<noteq> Raised ValueError"
      by (rule episodes_raises_only_IndexError) simp
    then show ?thesis by (simp add: actor_unfold[OF ok Inr rt refl refl])
  qed
  from bad good show ?thesis by auto
qed

theorem step_budget_validation_witness:
  "actor 5 sample_collaborators 3 0 ScheduleNone idle_world = (Raised ValueError, [], idle_world)
   \<and> actor 5 sample_collaborators 3 (-2) ScheduleNone idle_world = (Raised ValueError, [], idle_world)
   \<and> fst (actor 5 sample_collaborators 3 (-1) ScheduleNone idle_world) \<noteq> Raised ValueError
   \<and> fst (actor 5 sample_collaborators 3 1 ScheduleNone idle_world) \<noteq> Raised ValueError"
  using step_budget_validation[of 5 sample_collaborators 3 0 ScheduleNone idle_world]
    step_budget_validation[of 5 sample_collaborators 3 "-2" ScheduleNone idle_world]
    step_budget_validation[of 5 sample_collaborators 3 "-1" ScheduleNone idle_world]
    step_budget_validation[of 5 sample_collaborators 3 1 ScheduleNone idle_world]
  by simp

text \<open>
  Claim C9, as the code has it. Let the step budget pass its check and the schedule
  argument be other than the period 0. Every run of the actor, finished or still inside a
  loop when the fuel ends, begins by creating the proxy and making the initial-state round
  trip: the message is sent, the reply received, and the policy states of the reply handed
  to the agent wrapper. Only then do the episodes begin, in the state this leaves, and the
  first \<open>COLLECT_DONE\<close> message carries the version of that reply. No other initial-state
  round trip and no notification occurs during the episodes, where all uses of the
  environment lie. A run that completes has gone through \<open>num_episodes\<close> training episodes;
  it then hands the \<open>DONE\<close> message to \<open>isend\<close>, which returns no reply, closes the proxy
  and does nothing else: the collaborators are left in the state that follows from the
  state after the last episode by \<open>isend\<close> and \<open>close\<close> alone. No such run raises, and by
  \<open>actor_completes\<close> the run completes for terminating collaborators once the fuel reaches
  their bound.
\<close>

theorem actor_round_trips:
  assumes "\<not> (num_steps = 0 \<or> num_steps < -1)" and "eval_schedule \<noteq> ScheduleInt 0"
  shows "\<exists>reply w1 w2 body.
      proxy_send c GET_INITIAL_POLICY_STATE (new_proxy c w) = (reply, w1)
    \<and> w2 = set_policy_states c (reply_policy_state reply) w1
    \<and> fst (snd (actor fuel c num_episodes num_steps eval_schedule w)) =
        [(OpenProxy, new_proxy c w),
         (RoundTrip GET_INITIAL_POLICY_STATE reply, w1),
         (SetPolicyStates (reply_policy_state reply), w2)]
        @ body
        @ (if fst (actor fuel c num_episodes num_steps eval_schedule w) = Completed
           then [(Notification DONE, proxy_isend c DONE (last (w2 # map snd body))),
                 (CloseProxy, proxy_close c (proxy_isend c DONE (last (w2 # map snd body))))]
           else [])
    \<and> snd (snd (actor fuel c num_episodes num_steps eval_schedule w)) =
        (if fst (actor fuel c num_episodes num_steps eval_schedule w) = Completed
         then proxy_close c (proxy_isend c DONE (last (w2 # map snd body)))
         else last (w2 # map snd body))
    \<and> list_all (\<lambda>e. \<not> is_initial_round_trip e \<and> \<not> is_notification e) (map fst body)
    \<and> (body \<noteq> [] \<longrightarrow> hd body = (Explore, explore c w2))
    \<and> (sent_versions (map fst body) \<noteq> []
         \<longrightarrow> hd (sent_versions (map fst body)) = Some (reply_version reply))
    \<and> (fst (actor fuel c num_episodes num_steps eval_schedule w) = Completed
         \<longrightarrow> count_list (map fst body) ExplorationStep = nat num_episodes)
    \<and> (\<forall>e. fst (actor fuel c num_episodes num_steps eval_schedule w) \<noteq> Raised e)"
proof -
  from assms(2) obtain sched
    where sched: "compute_eval_schedule num_episodes eval_schedule = Inr sched"
    using compute_eval_schedule_returns by blast
  obtain reply w1 where rt: "proxy_send c GET_INITIAL_POLICY_STATE (new_proxy c w) = (reply, w1)"
    by (cases "proxy_send c GET_INITIAL_POLICY_STATE (new_proxy c w)")
  define w2 where "w2 = set_policy_states c (reply_policy_state reply) w1"
  define r where
    "r = episodes fuel c num_steps sched [1..num_episodes] 0 (Some (reply_version reply), w2)"
  define body where "body = fst (snd r)"
  note unfold = actor_unfold[OF assms(1) sched rt w2_def r_def]
  from compute_eval_schedule_last[OF sched]
  have ne: "sched \<noteq> []" and last: "last sched = num_episodes" by simp_all
  have ev: "events r = map fst body" by (simp add: events_def body_def)
  have "tracks (snd (Some (reply_version reply), w2)) r"
    unfolding r_def by (rule tracks_episodes)
  then have world: "snd (snd (snd r)) = last (w2 # map snd body)"
    by (simp add: tracks_def body_def)
  have "avoids {e. is_initial_round_trip e \<or> is_notification e} r"
    unfolding r_def by (rule episodes_avoids) simp_all
  then have quiet: "list_all (\<lambda>e. \<not> is_initial_round_trip e \<and> \<not> is_notification e) (map fst body)"
    by (auto simp: avoids_def ev list_all_iff)
  have first: "hd body = (Explore, explore c w2)" if "body \<noteq> []"
  proof -
    from that have "[1..num_episodes] \<noteq> []" by (auto simp: body_def r_def)
    from episodes_first[OF this, of fuel c num_steps sched 0 "(Some (reply_version reply), w2)"]
    show ?thesis by (auto simp: body_def r_def)
  qed
  have "carries (fst (Some (reply_version reply), w2)) r"
    unfolding r_def by (rule carries_episodes)
  then have version: "hd (sent_versions (map fst body)) = Some (reply_version reply)"
    if "sent_versions (map fst body) \<noteq> []"
    using that by (cases "sent_versions (map fst body)") (simp_all add: carries_def ev)
  have calm: "fst r \<noteq> Raised e" for e
    unfolding r_def by (rule episodes_no_IndexError[OF ne last]) (use ne in simp)
  have cnt: "count_list (map fst body) ExplorationStep = nat num_episodes" if "fst r = Completed"
    using episodes_count[OF that[unfolded r_def]] by (simp add: ev[unfolded r_def])
  have shape: "fst (snd (actor fuel c num_episodes num_steps eval_schedule w)) =
        [(OpenProxy, new_proxy c w),
         (RoundTrip GET_INITIAL_POLICY_STATE reply, w1),
         (SetPolicyStates (reply_policy_state reply), w2)]
        @ body
        @ (if fst (actor fuel c num_episodes num_steps eval_schedule w) = Completed
           then [(Notification DONE, proxy_isend c DONE (last (w2 # map snd body))),
                 (CloseProxy, proxy_close c (proxy_isend c DONE (last (w2 # map snd body))))]
           else [])"
    by (simp add: unfold body_def world[unfolded body_def, symmetric] del: last.simps)
  have final: "snd (snd (actor fuel c num_episodes num_steps eval_schedule w)) =
        (if fst (actor fuel c num_episodes num_steps eval_schedule w) = Completed
         then proxy_close c (proxy_isend c DONE (last (w2 # map snd body)))
         else last (w2 # map snd body))"
    by (simp add: unfold body_def world[unfolded body_def, symmetric] del: last.simps)
  have episodes_done: "fst (actor fuel c num_episodes num_steps eval_schedule w) = Completed
         \<longrightarrow> count_list (map fst body) ExplorationStep = nat num_episodes"
    using cnt by (simp add: unfold split: if_splits)
  have no_raise: "\<forall>e. fst (actor fuel c num_episodes num_steps eval_schedule w) \<noteq> Raised e"
    using calm by (simp add: unfold)
  have first': "body \<noteq> [] \<longrightarrow> hd body = (Explore, explore c w2)"
    using first by blast
  have version': "sent_versions (map fst body) \<noteq> []
         \<longrightarrow> hd (sent_versions (map fst body)) = Some (reply_version reply)"
    using version by blast
  from rt w2_def shape final quiet first' version' episodes_done no_raise
  have "proxy_send c GET_INITIAL_POLICY_STATE (new_proxy c w) = (reply, w1)
    \<and> w2 = set_policy_states c (reply_policy_state reply) w1
    \<and> fst (snd (actor fuel c num_episodes num_steps eval_schedule w)) =
        [(OpenProxy, new_proxy c w),
         (RoundTrip GET_INITIAL_POLICY_STATE reply, w1),
         (SetPolicyStates (reply_policy_state reply), w2)]
        @ body
        @ (if fst (actor fuel c num_episodes num_steps eval_schedule w) = Completed
           then [(Notification DONE, proxy_isend c DONE (last (w2 # map snd body))),
                 (CloseProxy, proxy_close c (proxy_isend c DONE (last (w2 # map snd body))))]
           else [])
    \<and> snd (snd (actor fuel c num_episodes num_steps eval_schedule w)) =
        (if fst (actor fuel c num_episodes num_steps eval_schedule w) = Completed
         then proxy_close c (proxy_isend c DONE (last (w2 # map snd body)))
         else last (w2 # map snd body))
    \<and> list_all (\<lambda>e. \<not> is_initial_round_trip e \<and> \<not> is_notification e) (map fst body)
    \<and> (body \<noteq> [] \<longrightarrow> hd body = (Explore, explore c w2))
    \<and> (sent_versions (map fst body) \<noteq> []
         \<longrightarrow> hd (sent_versions (map fst body)) = Some (reply_version reply))
    \<and> (fst (actor fuel c num_episodes num_steps eval_schedule w) = Completed
         \<longrightarrow> count_list (map fst body) ExplorationStep = nat num_episodes)
    \<and> (\<forall>e. fst (actor fuel c num_episodes num_steps eval_schedule w) \<noteq> Raised e)"
    by (intro conjI) assumption+
  then show ?thesis
    by (intro exI[of _ reply] exI[of _ w1] exI[of _ w2] exI[of _ body])
qed

theorem actor_round_trips_witness:
  "\<not> ((-1 :: int) = 0 \<or> (-1 :: int) < -1)
   \<and> ScheduleNone \<noteq> ScheduleInt 0
   \<and> fst (actor 3 sample_collaborators 1 (-1) ScheduleNone idle_world) = Completed
   \<and> outbox (snd (snd (actor 3 sample_collaborators 1 (-1) ScheduleNone idle_world))) =
       [GET_INITIAL_POLICY_STATE, COLLECT_DONE () (Some 0), DONE]
   \<and> adopted (snd (snd (actor 3 sample_collaborators 1 (-1) ScheduleNone idle_world))) = 11
   \<and> (\<forall>e. fst (actor 3 sample_collaborators 1 (-1) ScheduleNone idle_world) \<noteq> Raised e)"
proof -
  have h1: "\<not> ((-1 :: int) = 0 \<or> (-1 :: int) < -1)" by simp
  have h2: "ScheduleNone \<noteq> ScheduleInt 0" by simp
  from actor_round_trips[OF h1 h2, of sample_collaborators idle_world 3 1]
  have "\<forall>e. fst (actor 3 sample_collaborators 1 (-1) ScheduleNone idle_world) \<noteq> Raised e"
    by blast
  with h1 h2 show ?thesis by (simp add: sample_run)
qed

text \<open>
  The claim as stated, for every run, fails: a run whose step budget is 0 raises before
  the proxy exists, and a run whose schedule argument is the period 0 raises when the
  schedule is computed, after the proxy is created; neither makes the initial round trip,
  and no message reaches the proxy.
\<close>

theorem actor_round_trips_counterexample:
  "actor 3 sample_collaborators 1 0 ScheduleNone idle_world = (Raised ValueError, [], idle_world)
   \<and> actor 3 sample_collaborators 1 (-1) (ScheduleInt 0) idle_world =
       (Raised ZeroDivisionError, [(OpenProxy, idle_world)], idle_world)
   \<and> outbox idle_world = []"
  by (simp add: actor_def compute_eval_schedule_def sample_collaborators_def idle_world_def)

end
